theory Spec2Isabelle
  imports Main "HOL-Library.AList"
begin

section \<open>JavaScript values the sources rely on\<close>

text \<open>
  The exceptions the modelled code can raise: a \<open>TypeError\<close> of the language (a property
  read on \<open>undefined\<close> or \<open>null\<close>, a non-string given to \<open>path.resolve\<close>), a
  \<open>SyntaxError\<close> of the parser, and \<open>Error msg\<close> for a \<open>throw new Error(msg)\<close> of the
  sources.
\<close>

datatype error = TypeError | SyntaxError | Error string

text \<open>
  \<open>String.prototype.substring(a, b)\<close>: both indices are clamped to \<open>[0, length]\<close> and
  swapped when the first exceeds the second. Strings are lists of code units.
\<close>

definition substring :: "string \<Rightarrow> int \<Rightarrow> int \<Rightarrow> string" where
  "substring s a b =
     (let n = int (length s);
          a' = max 0 (min a n);
          b' = max 0 (min b n);
          lo = min a' b';
          hi = max a' b'
      in take (nat (hi - lo)) (drop (nat lo) s))"

text \<open>
  The properties every object inherits from \<open>Object.prototype\<close>. A read \<open>obj[key]\<close> on an
  object literal \<open>{}\<close> finds them when \<open>key\<close> is not an own property; each is truthy (a
  function, or the prototype object itself for \<open>__proto__\<close>).
\<close>

definition object_prototype_keys :: "string list" where
  "object_prototype_keys =
     [''constructor'', ''__defineGetter__'', ''__defineSetter__'', ''hasOwnProperty'',
      ''__lookupGetter__'', ''__lookupSetter__'', ''isPrototypeOf'', ''propertyIsEnumerable'',
      ''toString'', ''valueOf'', ''__proto__'', ''toLocaleString'']"

definition inherited :: "string \<Rightarrow> bool" where
  "inherited k = (k \<in> set object_prototype_keys)"

text \<open>
  The order in which \<open>for (var k in obj)\<close> lists the own properties of an object: the keys
  that are array indices (canonical decimal numerals below \<open>2^32 - 1\<close>) first, in ascending
  numeric order, then the other keys in the order of their creation.
\<close>

definition digit_val :: "char \<Rightarrow> int" where
  "digit_val c = of_char c - 48"

definition is_digit :: "char \<Rightarrow> bool" where
  "is_digit c = (48 \<le> (of_char c :: int) \<and> (of_char c :: int) \<le> 57)"

definition decimal :: "string \<Rightarrow> int" where
  "decimal s = foldl (\<lambda>acc c. 10 * acc + digit_val c) 0 s"

definition is_array_index :: "string \<Rightarrow> bool" where
  "is_array_index s =
     (s \<noteq> [] \<and> list_all is_digit s \<and> (s = ''0'' \<or> hd s \<noteq> CHR ''0'') \<and>
      length s \<le> 10 \<and> decimal s < 4294967295)"

definition for_in :: "(string \<times> 'a) list \<Rightarrow> (string \<times> 'a) list" where
  "for_in obj =
     sort_key (\<lambda>kv. decimal (fst kv)) (filter (\<lambda>kv. is_array_index (fst kv)) obj) @
     filter (\<lambda>kv. \<not> is_array_index (fst kv)) obj"

section \<open>The syntax tree of the parser\<close>

text \<open>
  A node of the SpiderMonkey/ESTree syntax tree as the scanner reads it: its \<open>type\<close>, its
  \<open>range\<close> (the parser runs with \<open>range : true\<close>), its primitive properties (\<open>name\<close> of an
  identifier, \<open>value\<close> of a literal) and its child properties. A child property holds a
  node or \<open>null\<close> (\<open>Single\<close>), or an array whose elements are nodes or \<open>null\<close>
  (\<open>Multi\<close>). A property the node does not have reads as \<open>undefined\<close>, which the walker
  treats like \<open>null\<close>.
\<close>

datatype prim = PStr string | PNum int | PBool bool | PNull | PRegex

datatype 'n slot = Single "'n option" | Multi "'n option list"

datatype node =
  Node (ntype: string) (nrange: "nat \<times> nat") (prims: "(string \<times> prim) list")
       (children: "(string \<times> node slot) list")

definition fld :: "node \<Rightarrow> string \<Rightarrow> node slot" where
  "fld n k = (case map_of (children n) k of None \<Rightarrow> Single None | Some f \<Rightarrow> f)"

definition is_string_literal :: "node \<Rightarrow> bool" where
  "is_string_literal n =
     (ntype n = ''Literal'' \<and>
      (case map_of (prims n) ''value'' of Some (PStr s) \<Rightarrow> True | _ \<Rightarrow> False))"

section \<open>The tree walker (\<open>ast-walker.js\<close>)\<close>

text \<open>
  The walker keeps a queue \<open>nodes\<close> of values: \<open>nodes.push(a, b)\<close> appends each argument
  as one element, \<open>nodes.concat(a, b)\<close> appends the elements of an array argument and any
  other argument as one element. An element of the queue is therefore a node, \<open>null\<close> or
  \<open>undefined\<close> (\<open>Single None\<close>), or an array that was pushed whole (\<open>Multi\<close>).
\<close>

definition concat_items :: "node slot list \<Rightarrow> node slot list" where
  "concat_items args =
     concat (map (\<lambda>a. case a of Multi xs \<Rightarrow> map Single xs | Single x \<Rightarrow> [Single x]) args)"

definition pushed :: "node \<Rightarrow> string list \<Rightarrow> error + node slot list" where
  "pushed n ks = Inr (map (fld n) ks)"

definition concatenated :: "node \<Rightarrow> string list \<Rightarrow> error + node slot list" where
  "concatenated n ks = Inr (concat_items (map (fld n) ks))"

fun object_pattern_items :: "node option list \<Rightarrow> error + node slot list" where
  "object_pattern_items [] = Inr []"
| "object_pattern_items (None # ps) = Inl TypeError"
| "object_pattern_items (Some prop # ps) =
     (case object_pattern_items ps of
        Inl e \<Rightarrow> Inl e
      | Inr items \<Rightarrow> Inr (fld prop ''key'' # fld prop ''value'' # items))"

text \<open>
  The \<open>switch (node.type)\<close> of \<open>ASTWalker.walk\<close>: the elements each node type adds to
  the queue. The source reads \<open>nodes.cases\<close> and \<open>nodes.block\<close>, properties of the queue
  array itself, in the cases of \<open>SwitchStatement\<close> and \<open>TryStatement\<close>; both are
  \<open>undefined\<close>. The loop of \<open>ObjectPattern\<close> reads \<open>prop.key\<close> of each element and
  raises on a \<open>null\<close> element or a missing array.
\<close>

definition enqueue :: "node \<Rightarrow> error + node slot list" where
  "enqueue n =
    (let t = ntype n in
     if t = ''Program'' then concatenated n [''body'']
     else if t = ''Function'' then concatenated n [''params'', ''defaults'', ''rest'', ''body'']
     else if t = ''BlockStatement'' then concatenated n [''body'']
     else if t = ''ExpressionStatement'' then pushed n [''expression'']
     else if t = ''IfStatement'' then pushed n [''test'', ''consequent'', ''alternate'']
     else if t = ''LabeledStatement'' then pushed n [''label'', ''body'']
     else if t = ''BreakStatement'' \<or> t = ''ContinueStatement'' then pushed n [''label'']
     else if t = ''WithStatement'' then pushed n [''object'', ''body'']
     else if t = ''SwitchStatement'' then
       Inr (concat_items [fld n ''discriminant'', Single None])
     else if t = ''ReturnStatement'' then pushed n [''argument'']
     else if t = ''TryStatement'' then
       Inr (concat_items
             [Single None, fld n ''handler'', fld n ''guardedHandlers'', fld n ''finalizer''])
     else if t = ''WhileStatement'' then pushed n [''test'', ''body'']
     else if t = ''DoWhileStatement'' then pushed n [''body'', ''test'']
     else if t = ''ForStatement'' then pushed n [''init'', ''test'', ''update'', ''body'']
     else if t = ''ForInStatement'' \<or> t = ''ForOfStatement'' then
       pushed n [''left'', ''right'', ''body'']
     else if t = ''LetStatement'' then concatenated n [''head'', ''body'']
     else if t = ''FunctionDeclaration'' then
       concatenated n [''id'', ''params'', ''defaults'', ''rest'', ''body'']
     else if t = ''VariableDeclaration'' then concatenated n [''declarations'']
     else if t = ''VariableDeclarator'' then pushed n [''id'', ''init'']
     else if t = ''ArrayExpression'' then concatenated n [''elements'']
     else if t = ''ObjectExpression'' then concatenated n [''properties'']
     else if t = ''Property'' then pushed n [''key'', ''value'']
     else if t = ''FunctionExpression'' then
       concatenated n [''id'', ''params'', ''defaults'', ''rest'', ''body'']
     else if t = ''ArrowExpression'' then
       concatenated n [''params'', ''defaults'', ''rest'', ''body'']
     else if t = ''SequenceExpression'' then concatenated n [''expressions'']
     else if t = ''UnaryExpression'' then pushed n [''argument'']
     else if t = ''BinaryExpression'' then pushed n [''left'', ''right'']
     else if t = ''AssignmentExpression'' then pushed n [''left'', ''right'']
     else if t = ''UpdateExpression'' then pushed n [''argument'']
     else if t = ''LogicalExpression'' then pushed n [''left'', ''right'']
     else if t = ''ConditionalExpression'' then pushed n [''test'', ''alternate'', ''consequent'']
     else if t = ''NewExpression'' \<or> t = ''CallExpression'' then
       concatenated n [''callee'', ''arguments'']
     else if t = ''MemberExpression'' then pushed n [''object'', ''property'']
     else if t = ''YieldExpression'' then pushed n [''argument'']
     else if t = ''ComprehensionExpression'' \<or> t = ''GeneratorExpression'' then
       concatenated n [''body'', ''blocks'', ''filter'']
     else if t = ''GraphExpression'' then pushed n [''expression'']
     else if t = ''LetExpression'' then concatenated n [''head'', ''body'']
     else if t = ''ObjectPattern'' then
       (case fld n ''properties'' of
          Multi ps \<Rightarrow> object_pattern_items ps
        | Single None \<Rightarrow> Inl TypeError
        | Single (Some m) \<Rightarrow> Inr [])
     else if t = ''ArrayPattern'' then concatenated n [''elements'']
     else if t = ''SwitchCase'' then concatenated n [''test'', ''consequent'']
     else if t = ''CatchClause'' then pushed n [''param'', ''guard'', ''body'']
     else if t = ''ComprehensionBlock'' then pushed n [''left'', ''right'']
     else if t = ''ComprehensionIf'' then pushed n [''test'']
     else Inr [])"

text \<open>The measure of the loop: the nodes still reachable from the queue.\<close>

definition weight :: "node slot \<Rightarrow> nat" where
  "weight it =
     (case it of
        Single None \<Rightarrow> 0
      | Single (Some n) \<Rightarrow> size n
      | Multi xs \<Rightarrow> sum_list (map (\<lambda>x. case x of None \<Rightarrow> 0 | Some m \<Rightarrow> size m) xs))"

definition qweight :: "node slot list \<Rightarrow> nat" where
  "qweight q = sum_list (map weight q)"

lemma total_simps [simp]: "qweight [] = 0" "qweight (x # q) = weight x + qweight q"
  "qweight (q @ r) = qweight q + qweight r"
  by (simp_all add: qweight_def)

lemma total_concat_items [simp]: "qweight (concat_items args) = qweight args"
proof (induction args)
  case Nil show ?case by (simp add: concat_items_def)
next
  case (Cons a args)
  have "qweight (case a of Multi xs \<Rightarrow> map Single xs | Single x \<Rightarrow> [Single x]) = weight a"
    by (cases a) (auto simp: weight_def qweight_def comp_def split: option.splits intro!: arg_cong[where f=sum_list])
  with Cons show ?case by (simp add: concat_items_def)
qed

lemma weight_le_size_slot: "weight s \<le> size_slot size s"
proof (cases s)
  case (Single x) then show ?thesis by (cases x) (simp_all add: weight_def)
next
  case (Multi xs)
  have "sum_list (map (\<lambda>x. case x of None \<Rightarrow> 0 | Some m \<Rightarrow> size m) xs) \<le> size_list (size_option size) xs"
    by (induction xs) (auto split: option.splits)
  with Multi show ?thesis by (simp add: weight_def)
qed

lemma fields_total:
  "distinct ks \<Longrightarrow> qweight (map (\<lambda>k. case map_of cs k of None \<Rightarrow> Single None | Some f \<Rightarrow> f) ks)
     \<le> size_list (size_prod (\<lambda>x. 0) (size_slot size)) cs"
proof (induction cs arbitrary: ks)
  case Nil
  show ?case by (induction ks) (simp_all add: weight_def)
next
  case (Cons c cs)
  obtain k0 s0 where c: "c = (k0, s0)" by (cases c)
  let ?f = "\<lambda>cs k. weight (case map_of cs k of None \<Rightarrow> Single None | Some f \<Rightarrow> f)"
  show ?case
  proof (cases "k0 \<in> set ks")
    case False
    then have "map (?f (c # cs)) ks = map (?f cs) ks" by (auto simp: c)
    then have "sum_list (map (?f (c # cs)) ks) = sum_list (map (?f cs) ks)" by (rule arg_cong)
    then have "qweight (map (\<lambda>k. case map_of (c # cs) k of None \<Rightarrow> Single None | Some f \<Rightarrow> f) ks)
        = qweight (map (\<lambda>k. case map_of cs k of None \<Rightarrow> Single None | Some f \<Rightarrow> f) ks)"
      by (simp add: qweight_def comp_def)
    with Cons.IH[OF Cons.prems] show ?thesis by simp
  next
    case True
    have d: "distinct (remove1 k0 ks)" using Cons.prems by simp
    have "sum_list (map (?f (c # cs)) ks) = ?f (c # cs) k0 + sum_list (map (?f (c # cs)) (remove1 k0 ks))"
      using True by (simp add: sum_list_map_remove1)
    also have "map (?f (c # cs)) (remove1 k0 ks) = map (?f cs) (remove1 k0 ks)"
      using Cons.prems by (auto simp: c)
    also have "?f (c # cs) k0 = weight s0" by (simp add: c)
    finally have "qweight (map (\<lambda>k. case map_of (c # cs) k of None \<Rightarrow> Single None | Some f \<Rightarrow> f) ks)
       = weight s0 + qweight (map (\<lambda>k. case map_of cs k of None \<Rightarrow> Single None | Some f \<Rightarrow> f) (remove1 k0 ks))"
      by (simp add: qweight_def comp_def)
    with Cons.IH[OF d] weight_le_size_slot[of s0] show ?thesis by (simp add: c)
  qed
qed

lemma total_fields_less: "distinct ks \<Longrightarrow> qweight (map (fld n) ks) < size n"
  using fields_total[of ks "children n"] by (cases n) (simp add: fld_def[abs_def])

lemma total_object_pattern_items:
  "object_pattern_items ps = Inr items \<Longrightarrow> qweight items \<le> weight (Multi ps)"
proof (induction ps arbitrary: items)
  case Nil then show ?case by simp
next
  case (Cons p ps)
  then obtain m where p: "p = Some m" by (cases p) auto
  from Cons.prems p obtain rest where r: "object_pattern_items ps = Inr rest"
    and i: "items = fld m ''key'' # fld m ''value'' # rest"
    by (auto split: sum.splits)
  have "qweight [fld m ''key'', fld m ''value''] < size m"
    using total_fields_less[of "[''key'', ''value'']" m] by simp
  with Cons.IH[OF r] show ?case by (simp add: i p weight_def)
qed

lemma pushed_total: "pushed n ks = Inr items \<Longrightarrow> distinct ks \<Longrightarrow> qweight items < size n"
  using total_fields_less[of ks n] by (auto simp: pushed_def)

lemma concatenated_total:
  "concatenated n ks = Inr items \<Longrightarrow> distinct ks \<Longrightarrow> qweight items < size n"
  using total_fields_less[of ks n] by (auto simp: concatenated_def)

lemma weight_fld_less: "weight (fld n a) < size n"
  using total_fields_less[of "[a]" n] by simp

lemma weight_fld3_less:
  "distinct [a, b, c] \<Longrightarrow> weight (fld n a) + (weight (fld n b) + weight (fld n c)) < size n"
  using total_fields_less[of "[a, b, c]" n] by simp

lemma total_enqueue: "enqueue n = Inr items \<Longrightarrow> qweight items < size n"
proof (cases "ntype n = ''SwitchStatement'' \<or> ntype n = ''TryStatement'' \<or> ntype n = ''ObjectPattern''")
  case True
  assume e: "enqueue n = Inr items"
  from True consider "ntype n = ''SwitchStatement''" | "ntype n = ''TryStatement''"
    | "ntype n = ''ObjectPattern''" by blast
  then show ?thesis
  proof cases
    case 1
    with e have "items = concat_items [fld n ''discriminant'', Single None]"
      by (simp add: enqueue_def)
    then show ?thesis using weight_fld_less[of n "''discriminant''"] by (simp add: weight_def)
  next
    case 2
    with e have "items = concat_items
             [Single None, fld n ''handler'', fld n ''guardedHandlers'', fld n ''finalizer'']"
      by (simp add: enqueue_def)
    then show ?thesis
      using weight_fld3_less[of "''handler''" "''guardedHandlers''" "''finalizer''" n]
      by (simp add: weight_def)
  next
    case 3
    with e have c: "(case fld n ''properties'' of
          Multi ps \<Rightarrow> object_pattern_items ps
        | Single None \<Rightarrow> Inl TypeError
        | Single (Some m) \<Rightarrow> Inr []) = Inr items"
      by (simp add: enqueue_def)
    show ?thesis
    proof (cases "fld n ''properties''")
      case (Single x)
      with c have "items = []" by (cases x) auto
      then show ?thesis by (cases n) simp
    next
      case (Multi ps)
      with c have "object_pattern_items ps = Inr items" by simp
      from total_object_pattern_items[OF this] weight_fld_less[of n "''properties''"] Multi
      show ?thesis by simp
    qed
  qed
next
  case False
  assume e: "enqueue n = Inr items"
  have z: "0 < size n" by (cases n) simp
  from e False z show ?thesis
    unfolding enqueue_def Let_def
    by (auto split: if_splits dest!: pushed_total concatenated_total)
qed

text \<open>
  \<open>ASTWalker.walk(ast, dispatch)\<close> with the state the handlers of \<open>dispatch\<close> update
  passed along; \<open>walk dispatch [Single (Some ast)] st\<close> is the call of the source. An element
  that is not a node is skipped: \<open>null\<close> and \<open>undefined\<close> by the test \<open>!node\<close>, a pushed
  array because its \<open>type\<close> is \<open>undefined\<close>.
\<close>

function walk ::
  "(string \<Rightarrow> (node \<Rightarrow> 's \<Rightarrow> error + 's) option) \<Rightarrow> node slot list \<Rightarrow> 's \<Rightarrow> error + 's"
where
  "walk dispatch [] st = Inr st"
| "walk dispatch (Single None # nodes) st = walk dispatch nodes st"
| "walk dispatch (Multi xs # nodes) st = walk dispatch nodes st"
| "walk dispatch (Single (Some n) # nodes) st =
     (case (case dispatch (ntype n) of None \<Rightarrow> Inr st | Some handler \<Rightarrow> handler n st) of
        Inl e \<Rightarrow> Inl e
      | Inr st' \<Rightarrow>
          (case enqueue n of
             Inl e \<Rightarrow> Inl e
           | Inr items \<Rightarrow> walk dispatch (nodes @ items) st'))"
  by pat_completeness auto
termination
proof (relation "measures [\<lambda>(d, q, st). qweight q, \<lambda>(d, q, st). length q]", goal_cases)
  case 1 show ?case by simp
next
  case 2 then show ?case by (simp add: weight_def)
next
  case 3 then show ?case by auto
next
  case (4 dispatch n nodes st st' items)
  then show ?case using total_enqueue[of n items] by (simp add: weight_def)
qed

section \<open>The source scanner (\<open>required.js\<close>)\<close>

text \<open>
  A \<open>Reference\<close> (\<open>{source, position : {start, end}}\<close>) and a \<open>Requirement\<close>
  (\<open>{references, path, static}\<close>) of \<open>required.js\<close>.
\<close>

record reference =
  source :: string
  start_pos :: nat
  end_pos :: nat

record requirement =
  references :: "reference list"
  path :: string
  static :: bool

definition grabSource :: "string \<Rightarrow> nat \<times> nat \<Rightarrow> string" where
  "grabSource src r = substring src (int (fst r)) (int (snd r))"

text \<open>
  \<open>trackRequirement(source, required, node)\<close>. The object \<open>required\<close> is the list of its
  own properties in the order of their creation; an assignment \<open>required[path] = v\<close> keeps
  the place of an existing key and appends a new one (\<open>AList.update\<close>). The read
  \<open>required[path]\<close> also finds the properties inherited from \<open>Object.prototype\<close>: for
  such a \<open>path\<close> the value kept is the inherited one, it has no \<open>references\<close>, and
  \<open>.references.push\<close> raises a \<open>TypeError\<close>. So does a read of \<open>callee.type\<close>,
  \<open>args.length\<close> or \<open>first.type\<close> on \<open>undefined\<close> or \<open>null\<close>.
\<close>

definition trackRequirement ::
  "string \<Rightarrow> (string \<times> requirement) list \<Rightarrow> node \<Rightarrow> error + (string \<times> requirement) list"
where
  "trackRequirement src required node =
     (case fld node ''callee'' of
        Single None \<Rightarrow> Inl TypeError
      | Multi xs \<Rightarrow> Inr required
      | Single (Some callee) \<Rightarrow>
          if ntype callee \<noteq> ''Identifier'' \<or>
             map_of (prims callee) ''name'' \<noteq> Some (PStr ''require'')
          then Inr required
          else
            (case fld node ''arguments'' of
               Single None \<Rightarrow> Inl TypeError
             | Single (Some a) \<Rightarrow> Inr required
             | Multi args \<Rightarrow>
                 if length args \<noteq> 1 then Inr required
                 else
                   (case hd args of
                      None \<Rightarrow> Inl TypeError
                    | Some first \<Rightarrow>
                        let staticRequire = (ntype first = ''Literal'');
                            raw = grabSource src (nrange first);
                            p = (if staticRequire
                                 then substring raw 1 (int (length raw) - 1) else raw)
                        in (case (case map_of required p of
                                    Some r \<Rightarrow> Some r
                                  | None \<Rightarrow>
                                      if inherited p then None
                                      else Some \<lparr>references = [], path = p,
                                                 static = staticRequire\<rparr>) of
                              None \<Rightarrow> Inl TypeError
                            | Some r \<Rightarrow>
                                Inr (AList.update p
                                      (r\<lparr>references := references r @
                                          [\<lparr>source = grabSource src (nrange node),
                                            start_pos = fst (nrange node),
                                            end_pos = snd (nrange node)\<rparr>]\<rparr>)
                                      (AList.update p r required))))))"

text \<open>
  A Vinyl file: its path and its contents (\<open>None\<close> when \<open>file.isNull()\<close>). A value that
  is not a Vinyl file is \<open>None\<close> of the option type. \<open>Required.analyze(file)\<close> returns
  \<open>null\<close> for either; otherwise it parses the contents (the parser is a parameter and may
  raise), walks the tree and lists the requirements in the order of \<open>for (var path in
  required)\<close>.
\<close>

record vinyl =
  vpath :: string
  contents :: "string option"

definition Required_analyze ::
  "(string \<Rightarrow> error + node) \<Rightarrow> 'a vinyl_scheme option \<Rightarrow> error + requirement list option"
where
  "Required_analyze parse file =
     (case file of
        None \<Rightarrow> Inr None
      | Some f \<Rightarrow>
          (case contents f of
             None \<Rightarrow> Inr None
           | Some src \<Rightarrow>
               (case parse src of
                  Inl e \<Rightarrow> Inl e
                | Inr ast \<Rightarrow>
                    (case walk [''CallExpression'' \<mapsto> (\<lambda>n required. trackRequirement src required n)]
                            [Single (Some ast)] [] of
                       Inl e \<Rightarrow> Inl e
                     | Inr required \<Rightarrow> Inr (Some (map snd (for_in required)))))))"

section \<open>Paths (\<open>path.resolve\<close>, \<open>path.dirname\<close>)\<close>

text \<open>
  POSIX \<open>path.resolve(...args)\<close> with the working directory \<open>cwd\<close> (an absolute path):
  the arguments are joined from the last absolute one on (from \<open>cwd\<close> when none is
  absolute), empty arguments are ignored, and the result is normalised: empty and \<open>.\<close>
  segments are dropped, \<open>..\<close> removes the segment before it, and no trailing separator
  remains.
\<close>

fun split_sep :: "string \<Rightarrow> string list" where
  "split_sep [] = [[]]"
| "split_sep (c # cs) =
     (if c = CHR ''/'' then [] # split_sep cs
      else (case split_sep cs of seg # segs \<Rightarrow> (c # seg) # segs | [] \<Rightarrow> [[c]]))"

definition normalize_step :: "string list \<Rightarrow> string \<Rightarrow> string list" where
  "normalize_step acc seg =
     (if seg = [] \<or> seg = ''.'' then acc
      else if seg = ''..'' then butlast acc
      else acc @ [seg])"

fun join_sep :: "string list \<Rightarrow> string" where
  "join_sep [] = []"
| "join_sep [seg] = seg"
| "join_sep (seg # segs) = seg @ ''/'' @ join_sep segs"

definition path_resolve :: "string \<Rightarrow> string list \<Rightarrow> string" where
  "path_resolve cwd args =
     (let joined = foldl (\<lambda>acc a. if a = [] then acc
                                    else if hd a = CHR ''/'' then a
                                    else acc @ ''/'' @ a) cwd args
      in ''/'' @ join_sep (foldl normalize_step [] (split_sep joined)))"

text \<open>
  POSIX \<open>path.dirname\<close>, which gives \<open>file.dirname\<close> of a Vinyl file: the path up to the
  last separator that is followed by a segment.
\<close>

definition dirname :: "string \<Rightarrow> string" where
  "dirname p =
     (if p = [] then ''.''
      else
        (let body = rev (dropWhile (\<lambda>c. c = CHR ''/'') (rev (tl p)));
             cut = rev (dropWhile (\<lambda>c. c \<noteq> CHR ''/'') (rev body))
         in if cut = [] then (if hd p = CHR ''/'' then ''/'' else ''.'')
            else if hd p = CHR ''/'' \<and> cut = ''/'' then ''//''
            else hd p # butlast cut))"

section \<open>The resolver (\<open>resolver.js\<close>, class \<open>Resolver\<close>)\<close>

text \<open>
  The options of a resolver. An entry of \<open>mains\<close> is a key or a sequence of nested keys.
  \<open>default_options\<close> are the values the constructor takes for the options left out.
\<close>

datatype main_spec = Key string | Keys "string list"

record options =
  extensions :: "string list"
  modules :: "string list"
  packages :: "string list"
  mains :: "main_spec list"
  index :: string

definition default_options :: options where
  "default_options =
     \<lparr>extensions = ['''', ''.js''], modules = [''node_modules''],
      packages = [''package.json''], mains = [Keys [''main'']], index = ''index''\<rparr>"

text \<open>
  What the code reads from its environment: the working directory of the process, the
  file system as the finite table of the path strings at which \<open>fs.readFile\<close> succeeds
  (with the contents read), the parser of the scanner, and \<open>JSON.parse\<close> (\<open>None\<close> when it
  raises).
\<close>

datatype json =
  JNull | JBool bool | JNum int | JStr string | JArr "json list" | JObj "(string \<times> json) list"

record env =
  cwd :: string
  fs :: "(string \<times> string) list"
  parse :: "string \<Rightarrow> error + node"
  json_parse :: "string \<Rightarrow> json option"

text \<open>
  File objects live in a heap and are referred to by their address: the cache of the
  resolver and the dependency records share them by reference. A \<open>Dependency Record\<close> is
  \<open>{path, static, references, file, error}\<close>; \<open>file\<close> (here \<open>dep_file\<close>) is a reference or \<open>null\<close>, \<open>error\<close>
  a message or nothing. A file object is a Vinyl file, with \<open>dependencies\<close> once the
  grapher has assigned them.
\<close>

type_synonym ref = nat

record dependency = requirement +
  dep_file :: "ref option"
  error :: "string option"

record file_object = vinyl +
  dependencies :: "dependency list option"

text \<open>
  The outcome \<open>cb(err, file)\<close> of a resolution and the state of the process:
  the heap of file objects, \<open>Resolver.cache\<close> (absolute path to file object),
  \<open>Dependencies.cache\<close> (directory to specifier to outcome), and the log of the paths
  given to \<open>fs.readFile\<close>, oldest first.
\<close>

type_synonym outcome = "string option \<times> ref option"

record state =
  heap :: "file_object list"
  rcache :: "(string \<times> ref) list"
  dcache :: "(string \<times> (string \<times> outcome) list) list"
  reads :: "string list"

definition readFile :: "env \<Rightarrow> string \<Rightarrow> state \<Rightarrow> string option \<times> state" where
  "readFile e p st = (map_of (fs e) p, st\<lparr>reads := reads st @ [p]\<rparr>)"

text \<open>
  \<open>loadFile(fileName, ext, cb)\<close>. Its file names are absolute paths (results of
  \<open>path.resolve\<close>), which name no inherited property of the cache object.
\<close>

function loadFile :: "options \<Rightarrow> env \<Rightarrow> string \<Rightarrow> nat \<Rightarrow> state \<Rightarrow> outcome \<times> state" where
  "loadFile opts e fileName ext st =
     (if ext \<ge> length (extensions opts) then ((None, None), st)
      else
        (let realName = fileName @ extensions opts ! ext in
         case map_of (rcache st) realName of
           Some f \<Rightarrow> ((None, Some f), st)
         | None \<Rightarrow>
             (case readFile e realName st of
                (None, st') \<Rightarrow> loadFile opts e fileName (ext + 1) st'
              | (Some data, st') \<Rightarrow>
                  (let f = length (heap st');
                       st'' = st'\<lparr>heap := heap st' @
                                 [\<lparr>vpath = realName, contents = Some data,
                                   dependencies = None\<rparr>],
                               rcache := AList.update realName f (rcache st')\<rparr>
                   in ((None, Some f), st'')))))"
  by pat_completeness auto
termination
  by (relation "measure (\<lambda>(opts, e, fileName, ext, st). length (extensions opts) - ext)") auto

declare loadFile.simps [simp del]

text \<open>
  \<open>getEntryPoint(packageData)\<close> on the value \<open>JSON.parse\<close> returned. A property read
  raises on \<open>null\<close>; it finds the own properties of an object, the elements and the
  \<open>length\<close> of an array or a string, and nothing else (the keys of \<open>mains\<close> name no
  inherited property).
\<close>

definition truthy :: "json \<Rightarrow> bool" where
  "truthy v =
     (case v of JNull \<Rightarrow> False | JBool b \<Rightarrow> b | JNum n \<Rightarrow> n \<noteq> 0 | JStr s \<Rightarrow> s \<noteq> []
      | JArr xs \<Rightarrow> True | JObj kvs \<Rightarrow> True)"

definition member :: "json \<Rightarrow> string \<Rightarrow> error + json option" where
  "member v k =
     (case v of
        JNull \<Rightarrow> Inl TypeError
      | JObj kvs \<Rightarrow> Inr (map_of kvs k)
      | JArr xs \<Rightarrow>
          Inr (if k = ''length'' then Some (JNum (int (length xs)))
               else if is_array_index k \<and> nat (decimal k) < length xs
               then Some (xs ! nat (decimal k)) else None)
      | JStr s \<Rightarrow>
          Inr (if k = ''length'' then Some (JNum (int (length s)))
               else if is_array_index k \<and> nat (decimal k) < length s
               then Some (JStr [s ! nat (decimal k)]) else None)
      | _ \<Rightarrow> Inr None)"

fun descend :: "json \<Rightarrow> string list \<Rightarrow> error + json option" where
  "descend packageLevel [] = Inr (if truthy packageLevel then Some packageLevel else None)"
| "descend packageLevel (level # levels) =
     (case member packageLevel level of
        Inl err \<Rightarrow> Inl err
      | Inr None \<Rightarrow> Inr None
      | Inr (Some v) \<Rightarrow> if truthy v then descend v levels else Inr None)"

fun getEntryPoint :: "options \<Rightarrow> json \<Rightarrow> main_spec list \<Rightarrow> error + json" where
  "getEntryPoint opts packageData [] = Inr (JStr (index opts))"
| "getEntryPoint opts packageData (main # rest) =
     (case descend packageData (case main of Key k \<Rightarrow> [k] | Keys ks \<Rightarrow> ks) of
        Inl err \<Rightarrow> Inl err
      | Inr (Some packageLevel) \<Rightarrow> Inr packageLevel
      | Inr None \<Rightarrow> getEntryPoint opts packageData rest)"

text \<open>
  \<open>loadDirectory(directory, packageFile, cb)\<close>. \<open>path.resolve\<close> raises a \<open>TypeError\<close> when
  the entry point of the manifest is not a string.
\<close>

function loadDirectory ::
  "options \<Rightarrow> env \<Rightarrow> string \<Rightarrow> nat \<Rightarrow> state \<Rightarrow> error + outcome \<times> state"
where
  "loadDirectory opts e directory packageFile st =
     (if packageFile \<ge> length (packages opts)
      then Inr (loadFile opts e (path_resolve (cwd e) [directory, index opts]) 0 st)
      else
        (let packagePath = path_resolve (cwd e) [directory, packages opts ! packageFile] in
         case readFile e packagePath st of
           (None, st') \<Rightarrow> loadDirectory opts e directory (packageFile + 1) st'
         | (Some packageData, st') \<Rightarrow>
             (case json_parse e packageData of
                None \<Rightarrow>
                  Inr ((Some (''Package file is incorrectly formatted: '' @ packagePath), None),
                       st')
              | Some packageData \<Rightarrow>
                  (case getEntryPoint opts packageData (mains opts) of
                     Inl err \<Rightarrow> Inl err
                   | Inr (JStr entry) \<Rightarrow>
                       (let entry = path_resolve (cwd e) [directory, entry] in
                        case loadFile opts e entry 0 st' of
                          ((err, Some f), st1) \<Rightarrow> Inr ((None, Some f), st1)
                        | ((err, None), st1) \<Rightarrow>
                            (let entryIndex = path_resolve (cwd e) [entry, index opts] in
                             case loadFile opts e entryIndex 0 st1 of
                               ((err, Some f), st2) \<Rightarrow> Inr ((None, Some f), st2)
                             | ((err, None), st2) \<Rightarrow>
                                 loadDirectory opts e directory (length (packages opts)) st2))
                   | Inr _ \<Rightarrow> Inl TypeError))))"
  by pat_completeness auto
termination
  by (relation "measure (\<lambda>(opts, e, directory, packageFile, st).
        length (packages opts) - packageFile)") auto

declare loadDirectory.simps [simp del]

text \<open>\<open>resolveRelative(module, cb)\<close>: the file first, then the directory.\<close>

definition resolveRelative ::
  "options \<Rightarrow> env \<Rightarrow> string \<Rightarrow> state \<Rightarrow> error + outcome \<times> state"
where
  "resolveRelative opts e module st =
     (case loadFile opts e module 0 st of
        ((err, Some f), st') \<Rightarrow> Inr ((None, Some f), st')
      | ((err, None), st') \<Rightarrow> loadDirectory opts e module 0 st')"

text \<open>
  \<open>resolveModule(base, moduleName, directory, cb)\<close>. \<open>base.lastIndexOf(path.sep)\<close> is
  \<open>-1\<close> when \<open>base\<close> has no separator, and \<open>substring(0, -1)\<close> is then empty.
  With no module directory configured, \<open>this.options.modules[directory]\<close> is \<open>undefined\<close>
  and \<open>path.resolve\<close> raises.
\<close>

definition lastIndexOf :: "string \<Rightarrow> char \<Rightarrow> int" where
  "lastIndexOf s c =
     int (length s) - 1 - int (length (takeWhile (\<lambda>x. x \<noteq> c) (rev s)))"

definition truncate_base :: "string \<Rightarrow> string" where
  "truncate_base base = substring base 0 (lastIndexOf base (CHR ''/''))"


lemma lastIndexOf_less: "lastIndexOf s c < int (length s)"
  by (simp add: lastIndexOf_def)

lemma length_truncate_base: "base \<noteq> [] \<Longrightarrow> length (truncate_base base) < length base"
  using lastIndexOf_less[of base "CHR ''/''"]
  by (auto simp: truncate_base_def substring_def Let_def min_def max_def)

function resolveModule ::
  "options \<Rightarrow> env \<Rightarrow> string \<Rightarrow> string \<Rightarrow> nat \<Rightarrow> state \<Rightarrow> error + outcome \<times> state"
where
  "resolveModule opts e base moduleName directory st =
     (if length base = 0 then Inr ((None, None), st)
      else if directory \<ge> length (modules opts) then Inl TypeError
      else
        (let module = path_resolve (cwd e) [base, modules opts ! directory, moduleName] in
         case resolveRelative opts e module st of
           Inl err \<Rightarrow> Inl err
         | Inr ((err, Some f), st') \<Rightarrow> Inr ((None, Some f), st')
         | Inr ((err, None), st') \<Rightarrow>
             (if directory + 1 \<ge> length (modules opts)
              then resolveModule opts e (truncate_base base) moduleName 0 st'
              else resolveModule opts e base moduleName (directory + 1) st')))"
  by pat_completeness auto
termination
  by (relation "measures [\<lambda>(opts, e, base, moduleName, directory, st). length base,
        \<lambda>(opts, e, base, moduleName, directory, st). length (modules opts) - directory]")
     (auto simp: length_truncate_base)

declare resolveModule.simps [simp del]

text \<open>
  \<open>resolve(module, base, cb)\<close>; \<open>base\<close> may be left out and is then the working
  directory. \<open>RELATIVE_PATH\<close> is \<^verbatim>\<open>/^(\/|\.\/|\.\.\/)/\<close>.
\<close>

definition RELATIVE_PATH :: "string \<Rightarrow> bool" where
  "RELATIVE_PATH m = (take 1 m = ''/'' \<or> take 2 m = ''./'' \<or> take 3 m = ''../'')"

definition resolve ::
  "options \<Rightarrow> env \<Rightarrow> string \<Rightarrow> string option \<Rightarrow> state \<Rightarrow> error + outcome \<times> state"
where
  "resolve opts e module base st =
     (let base = (case base of None \<Rightarrow> cwd e | Some b \<Rightarrow> b) in
      if module = [] then Inl (Error ''Must pass module to resolve and a callback'')
      else if RELATIVE_PATH module then
        (let hadTrailingSlash = (last module = CHR ''/'');
             resolved = path_resolve (cwd e) [base, module];
             resolved = (if hadTrailingSlash then resolved @ ''/'' else resolved)
         in resolveRelative opts e resolved st)
      else resolveModule opts e base module 0 st)"

section \<open>The resolution procedures as the specification words them\<close>

text \<open>The state after the reads \<open>ps\<close> have been logged.\<close>

definition logged :: "state \<Rightarrow> string list \<Rightarrow> state" where
  "logged st ps = st\<lparr>reads := reads st @ ps\<rparr>"

text \<open>
  Directory resolution, steps 1 to 7: the manifests are read in order until one can be
  read (\<open>first_manifest\<close> returns the paths whose read failed and the first manifest
  read, with its contents). \<open>manifest_resolution\<close> is what follows for that manifest:
  if it does not parse, the resolution ends with an error message; otherwise its entry
  point is tried as a file, then as a directory with an index file, and when both miss the
  index file of the directory itself is tried, the later manifests being ignored.
\<close>

fun first_manifest :: "env \<Rightarrow> string list \<Rightarrow> string list \<times> (string \<times> string) option" where
  "first_manifest e [] = ([], None)"
| "first_manifest e (p # ps) =
     (case map_of (fs e) p of
        Some data \<Rightarrow> ([], Some (p, data))
      | None \<Rightarrow> (case first_manifest e ps of (missed, found) \<Rightarrow> (p # missed, found)))"

definition manifest_resolution ::
  "options \<Rightarrow> env \<Rightarrow> string \<Rightarrow> string \<Rightarrow> string \<Rightarrow> state \<Rightarrow> error + outcome \<times> state"
where
  "manifest_resolution opts e directory packagePath data st =
     (case json_parse e data of
        None \<Rightarrow>
          Inr ((Some (''Package file is incorrectly formatted: '' @ packagePath), None), st)
      | Some manifest \<Rightarrow>
          (case getEntryPoint opts manifest (mains opts) of
             Inl err \<Rightarrow> Inl err
           | Inr (JStr entry) \<Rightarrow>
               (let entryPath = path_resolve (cwd e) [directory, entry] in
                case loadFile opts e entryPath 0 st of
                  ((err, Some f), st1) \<Rightarrow> Inr ((None, Some f), st1)
                | ((err, None), st1) \<Rightarrow>
                    (case loadFile opts e
                            (path_resolve (cwd e) [entryPath, index opts]) 0 st1 of
                       ((err, Some f), st2) \<Rightarrow> Inr ((None, Some f), st2)
                     | ((err, None), st2) \<Rightarrow>
                         Inr (loadFile opts e
                                (path_resolve (cwd e) [directory, index opts]) 0 st2)))
           | Inr _ \<Rightarrow> Inl TypeError))"

definition directory_resolution ::
  "options \<Rightarrow> env \<Rightarrow> string \<Rightarrow> string list \<Rightarrow> state \<Rightarrow> error + outcome \<times> state"
where
  "directory_resolution opts e directory manifests st =
     (case first_manifest e (map (\<lambda>m. path_resolve (cwd e) [directory, m]) manifests) of
        (missed, None) \<Rightarrow>
          Inr (loadFile opts e (path_resolve (cwd e) [directory, index opts]) 0
                 (logged st missed))
      | (missed, Some (packagePath, data)) \<Rightarrow>
          manifest_resolution opts e directory packagePath data
            (logged st (missed @ [packagePath])))"

text \<open>
  Bare-module resolution: the bases are the starting base and what remains of it after
  each truncation at its final separator, down to the last non-empty one; the candidates
  are \<open><base>/<moduleDir>/<name>\<close> for each base and each module directory, in order;
  relative resolution runs on each candidate until one yields a file.
\<close>

function module_bases :: "string \<Rightarrow> string list" where
  "module_bases base = (if base = [] then [] else base # module_bases (truncate_base base))"
  by pat_completeness auto
termination
  by (relation "measure length") (auto simp: length_truncate_base)

declare module_bases.simps [simp del]

definition module_candidates :: "options \<Rightarrow> env \<Rightarrow> string \<Rightarrow> string \<Rightarrow> string list" where
  "module_candidates opts e base moduleName =
     concat (map (\<lambda>b. map (\<lambda>m. path_resolve (cwd e) [b, m, moduleName]) (modules opts))
                 (module_bases base))"

fun first_resolved ::
  "options \<Rightarrow> env \<Rightarrow> string list \<Rightarrow> state \<Rightarrow> error + outcome \<times> state"
where
  "first_resolved opts e [] st = Inr ((None, None), st)"
| "first_resolved opts e (c # cs) st =
     (case resolveRelative opts e c st of
        Inl err \<Rightarrow> Inl err
      | Inr ((err, Some f), st') \<Rightarrow> Inr ((None, Some f), st')
      | Inr ((err, None), st') \<Rightarrow> first_resolved opts e cs st')"

text \<open>The absolute path with the segments \<open>segs\<close>: \<open>slashed [a, b] = /a/b\<close>.\<close>

definition slashed :: "string list \<Rightarrow> string" where
  "slashed segs = concat (map ((@) ''/'') segs)"


section \<open>The dependency grapher (\<open>dependencies.js\<close>, class \<open>Dependencies\<close>)\<close>

text \<open>
  How a call that takes a completion callback ends: the callback is invoked, once, with a
  value (\<open>Called\<close>); the call returns for good without invoking it (\<open>Dropped\<close>); an
  exception is raised (\<open>Thrown\<close>); or the fuel of the model ran out before the call ended
  (\<open>Timeout\<close>). Every path of the sources invokes its callback at most once.
\<close>

datatype 'a completion = Called 'a state | Dropped state | Thrown error | Timeout

text \<open>
  \<open>file.dependencies.push(d)\<close> on the file object at address \<open>file\<close>; it raises when the
  file has no \<open>dependencies\<close> yet.
\<close>

definition push_dependency :: "ref \<Rightarrow> dependency \<Rightarrow> state \<Rightarrow> error + state" where
  "push_dependency file d st =
     (if file < length (heap st) then
        (case dependencies (heap st ! file) of
           None \<Rightarrow> Inl TypeError
         | Some ds \<Rightarrow>
             Inr (st\<lparr>heap := (heap st)[file := (heap st ! file)\<lparr>dependencies := Some (ds @ [d])\<rparr>]\<rparr>))
      else Inl TypeError)"

definition dependency_of :: "requirement \<Rightarrow> ref option \<Rightarrow> string option \<Rightarrow> dependency" where
  "dependency_of requirement f err =
     \<lparr>references = references requirement, path = path requirement,
      static = static requirement, dep_file = f, error = err\<rparr>"

text \<open>
  \<open>resolveRequirements(file, requirements, index, cb)\<close> (with \<open>idx\<close> for \<open>index\<close>) and \<open>analyze(file, cb)\<close>. The
  argument of \<open>analyze\<close> is the address of a file object, or \<open>None\<close> for a value that is
  not a Vinyl file. The first argument is the fuel: one unit for each call.
\<close>

fun resolveRequirements ::
  "nat \<Rightarrow> options \<Rightarrow> env \<Rightarrow> ref \<Rightarrow> requirement list \<Rightarrow> nat \<Rightarrow> state \<Rightarrow> unit completion"
and Dependencies_analyze ::
  "nat \<Rightarrow> options \<Rightarrow> env \<Rightarrow> ref option \<Rightarrow> state \<Rightarrow> unit completion"
where
  "resolveRequirements 0 opts e file requirements idx st = Timeout"
| "resolveRequirements (Suc fuel) opts e file requirements idx st =
     (if length requirements = idx then Called () st
      else if length requirements < idx \<or> length (heap st) \<le> file then Thrown TypeError
      else
        (let requirement = requirements ! idx in
         if \<not> static requirement then
           (case push_dependency file
                   (dependency_of requirement None
                      (Some ''Unable to resolve dynamic dependency'')) st of
              Inl err \<Rightarrow> Thrown err
            | Inr st' \<Rightarrow> resolveRequirements fuel opts e file requirements (idx + 1) st')
         else
           (let dir = dirname (vpath (heap st ! file)) in
            case Option.bind (map_of (dcache st) dir)
                   (\<lambda>cached. map_of cached (path requirement)) of
              Some cacheResult \<Rightarrow>
                (case push_dependency file
                        (dependency_of requirement (snd cacheResult) (fst cacheResult)) st of
                   Inl err \<Rightarrow> Thrown err
                 | Inr st' \<Rightarrow> resolveRequirements fuel opts e file requirements (idx + 1) st')
            | None \<Rightarrow>
                (case resolve opts e (path requirement) (Some dir) st of
                   Inl err \<Rightarrow> Thrown err
                 | Inr ((err, dependent), st') \<Rightarrow>
                     (let err = (if dependent = None then Some ''Unable to locate dependency''
                                 else err);
                          cached = (case map_of (dcache st') dir of
                                      None \<Rightarrow> [] | Some c \<Rightarrow> c);
                          st' = st'\<lparr>dcache := AList.update dir
                                       (AList.update (path requirement) (err, dependent) cached)
                                       (dcache st')\<rparr>
                      in case push_dependency file
                                (dependency_of requirement dependent err) st' of
                           Inl err \<Rightarrow> Thrown err
                         | Inr st' \<Rightarrow>
                             (case dependent of
                                Some d \<Rightarrow>
                                  (case Dependencies_analyze fuel opts e (Some d) st' of
                                     Called u st' \<Rightarrow>
                                       resolveRequirements fuel opts e file requirements
                                         (idx + 1) st'
                                   | other \<Rightarrow> other)
                              | None \<Rightarrow>
                                  resolveRequirements fuel opts e file requirements
                                    (idx + 1) st'))))))"
| "Dependencies_analyze 0 opts e file st = Timeout"
| "Dependencies_analyze (Suc fuel) opts e file st =
     (case file of
        None \<Rightarrow> Dropped st
      | Some f \<Rightarrow>
          if length (heap st) \<le> f \<or> contents (heap st ! f) = None then Dropped st
          else if dependencies (heap st ! f) \<noteq> None then Called () st
          else
            (let st' = st\<lparr>heap := (heap st)[f := (heap st ! f)\<lparr>dependencies := Some []\<rparr>]\<rparr> in
             case Required_analyze (parse e) (Some (heap st ! f)) of
               Inl err \<Rightarrow> Thrown err
             | Inr None \<Rightarrow> Thrown TypeError
             | Inr (Some requirements) \<Rightarrow>
                 resolveRequirements fuel opts e f requirements 0 st'))"

section \<open>The facade (\<open>index.js\<close>, class \<open>Cartographer\<close>)\<close>

text \<open>
  \<open>analyze(fileName, cb)\<close>: the callback receives \<open>(err)\<close> when the entry file does not
  resolve and \<open>(undefined, file)\<close> when the analysis of the file completes.
\<close>

definition Cartographer_analyze ::
  "nat \<Rightarrow> options \<Rightarrow> env \<Rightarrow> string \<Rightarrow> state \<Rightarrow> outcome completion"
where
  "Cartographer_analyze fuel opts e fileName st =
     (case resolve opts e fileName None st of
        Inl err \<Rightarrow> Thrown err
      | Inr ((err, file), st') \<Rightarrow>
          if err \<noteq> None \<or> file = None
          then Called (Some (case err of Some msg \<Rightarrow> msg
                             | None \<Rightarrow> ''File not found: '' @ fileName), None) st'
          else
            (case Dependencies_analyze fuel opts e file st' of
               Called u st'' \<Rightarrow> Called (None, file) st''
             | Dropped st'' \<Rightarrow> Dropped st''
             | Thrown x \<Rightarrow> Thrown x
             | Timeout \<Rightarrow> Timeout))"

section \<open>The grapher, one call at a time\<close>

text \<open>
  The body of \<open>resolveRequirements\<close> up to its next call: the call ends (\<open>Finish\<close>), goes
  on with the next requirement (\<open>Continue\<close>), or first analyses the file it has resolved
  (\<open>Descend\<close>). \<open>cache_outcome\<close> is the assignment to
  \<open>Dependencies.cache[dirname][requirement.path]\<close>, \<open>located\<close> the replacement of the
  outcome of a resolution that found no file by the error \<open>Unable to locate dependency\<close>.
  The lemma \<open>resolveRequirements_Suc\<close> below shows that \<open>resolveRequirements\<close> is the
  iteration of these steps.
\<close>

datatype step = Finish "unit completion" | Continue state | Descend ref state

definition pushed_step :: "error + state \<Rightarrow> step" where
  "pushed_step r = (case r of Inl err \<Rightarrow> Finish (Thrown err) | Inr st' \<Rightarrow> Continue st')"

definition cache_outcome :: "string \<Rightarrow> string \<Rightarrow> outcome \<Rightarrow> state \<Rightarrow> state" where
  "cache_outcome dir p out st =
     st\<lparr>dcache := AList.update dir
            (AList.update p out (case map_of (dcache st) dir of None \<Rightarrow> [] | Some c \<Rightarrow> c))
            (dcache st)\<rparr>"

definition located :: "outcome \<Rightarrow> outcome" where
  "located out = (if snd out = None then (Some ''Unable to locate dependency'', None) else out)"

definition requirement_step ::
  "options \<Rightarrow> env \<Rightarrow> ref \<Rightarrow> requirement list \<Rightarrow> nat \<Rightarrow> state \<Rightarrow> step"
where
  "requirement_step opts e file requirements idx st =
     (if length requirements = idx then Finish (Called () st)
      else if length requirements < idx \<or> length (heap st) \<le> file then Finish (Thrown TypeError)
      else if \<not> static (requirements ! idx) then
        pushed_step (push_dependency file
          (dependency_of (requirements ! idx) None (Some ''Unable to resolve dynamic dependency'')) st)
      else
        (case Option.bind (map_of (dcache st) (dirname (vpath (heap st ! file))))
                (\<lambda>cached. map_of cached (path (requirements ! idx))) of
           Some cacheResult \<Rightarrow>
             pushed_step (push_dependency file
               (dependency_of (requirements ! idx) (snd cacheResult) (fst cacheResult)) st)
         | None \<Rightarrow>
             (case resolve opts e (path (requirements ! idx))
                     (Some (dirname (vpath (heap st ! file)))) st of
                Inl err \<Rightarrow> Finish (Thrown err)
              | Inr (out, st') \<Rightarrow>
                  (case push_dependency file
                          (dependency_of (requirements ! idx) (snd (located out)) (fst (located out)))
                          (cache_outcome (dirname (vpath (heap st ! file)))
                             (path (requirements ! idx)) (located out) st') of
                     Inl err \<Rightarrow> Finish (Thrown err)
                   | Inr st'' \<Rightarrow>
                       (case snd out of Some d \<Rightarrow> Descend d st'' | None \<Rightarrow> Continue st'')))))"

text \<open>
  A file object that passes the guard of \<open>analyze\<close> (\<open>vinyl.isVinyl(file)\<close> and not
  \<open>file.isNull()\<close>): an address of the heap whose file has contents.
\<close>

definition valid_file :: "state \<Rightarrow> ref \<Rightarrow> bool" where
  "valid_file st f = (f < length (heap st) \<and> contents (heap st ! f) \<noteq> None)"

text \<open>
  The body of \<open>analyze\<close> up to its call of \<open>resolveRequirements\<close>: the call ends
  (\<open>Stop\<close>), or the file gets the empty dependency list (\<open>assign_dependencies\<close>, the
  assignment \<open>file.dependencies = []\<close>) and its requirements are to be resolved
  (\<open>Scan\<close>). The lemma \<open>Dependencies_analyze_Suc\<close> below shows that \<open>analyze\<close> is this
  step followed by \<open>resolveRequirements\<close>.
\<close>

datatype scan = Stop "unit completion" | Scan ref "requirement list" state

definition assign_dependencies :: "ref \<Rightarrow> state \<Rightarrow> state" where
  "assign_dependencies f st =
     st\<lparr>heap := (heap st)[f := (heap st ! f)\<lparr>dependencies := Some []\<rparr>]\<rparr>"

definition analyze_step :: "env \<Rightarrow> ref option \<Rightarrow> state \<Rightarrow> scan" where
  "analyze_step e file st =
     (case file of
        None \<Rightarrow> Stop (Dropped st)
      | Some f \<Rightarrow>
          if \<not> valid_file st f then Stop (Dropped st)
          else if dependencies (heap st ! f) \<noteq> None then Stop (Called () st)
          else
            (case Required_analyze (parse e) (Some (heap st ! f)) of
               Inl err \<Rightarrow> Stop (Thrown err)
             | Inr None \<Rightarrow> Stop (Thrown TypeError)
             | Inr (Some requirements) \<Rightarrow> Scan f requirements (assign_dependencies f st)))"

section \<open>Invariants of the caches\<close>

text \<open>
  \<open>cached_file\<close>: the file object is the one \<open>Resolver.cache\<close> holds under the path of
  the file. \<open>wf_cache\<close>: \<open>Resolver.cache\<close> holds each path once and each file object once,
  and every file object it holds has contents and is stored under its own path. This is
  so in a fresh process, where the cache is empty, and every operation of the resolver and
  of the grapher keeps it so.
\<close>

definition cached_file :: "state \<Rightarrow> ref \<Rightarrow> bool" where
  "cached_file st f = (valid_file st f \<and> map_of (rcache st) (vpath (heap st ! f)) = Some f)"

definition wf_cache :: "state \<Rightarrow> bool" where
  "wf_cache st =
     (distinct (map fst (rcache st)) \<and> distinct (map snd (rcache st)) \<and>
      (\<forall>(p, r) \<in> set (rcache st). valid_file st r \<and> vpath (heap st ! r) = p))"

text \<open>
  The measure of the work left: the file objects without a dependency list, plus the
  paths of the file system that \<open>Resolver.cache\<close> does not hold yet.
\<close>

definition unanalysed :: "state \<Rightarrow> nat" where
  "unanalysed st = length (filter (\<lambda>f. dependencies f = None) (heap st))"

definition uncached :: "env \<Rightarrow> state \<Rightarrow> nat" where
  "uncached e st =
     length (filter (\<lambda>p. map_of (rcache st) p = None) (remdups (map fst (fs e))))"

definition pending :: "env \<Rightarrow> state \<Rightarrow> nat" where
  "pending e st = unanalysed st + uncached e st"

text \<open>
  What an operation of the resolver does to the state: it appends file objects that have
  contents and no dependency list, leaves \<open>Dependencies.cache\<close> alone, keeps the entries
  of \<open>Resolver.cache\<close>, keeps \<open>wf_cache\<close>, and does not increase the measure. When it
  returns a file, that file is cached.
\<close>

definition resolver_run :: "env \<Rightarrow> state \<Rightarrow> state \<Rightarrow> bool" where
  "resolver_run e st st' =
     ((\<exists>news. heap st' = heap st @ news \<and>
          (\<forall>f \<in> set news. dependencies f = None \<and> contents f \<noteq> None)) \<and>
      dcache st' = dcache st \<and>
      (\<forall>p r. map_of (rcache st) p = Some r \<longrightarrow> map_of (rcache st') p = Some r) \<and>
      (wf_cache st \<longrightarrow> wf_cache st') \<and>
      pending e st' \<le> pending e st)"

definition resolver_op :: "env \<Rightarrow> state \<Rightarrow> outcome \<times> state \<Rightarrow> bool" where
  "resolver_op e st r =
     (resolver_run e st (snd r) \<and>
      (\<forall>f. snd (fst r) = Some f \<longrightarrow> wf_cache st \<longrightarrow> cached_file (snd r) f))"

text \<open>
  \<open>graph_closed\<close>: the file of every dependency record, and of every entry of
  \<open>Dependencies.cache\<close>, is the file object that \<open>Resolver.cache\<close> holds under the path
  of that file. \<open>dynamic_ok\<close>: every dependency record that is not static has no file and
  the error \<open>Unable to resolve dynamic dependency\<close>.
\<close>

definition graph_closed :: "state \<Rightarrow> bool" where
  "graph_closed st =
     ((\<forall>f \<in> set (heap st). \<forall>ds. dependencies f = Some ds \<longrightarrow>
         (\<forall>d \<in> set ds. \<forall>r. dep_file d = Some r \<longrightarrow> cached_file st r)) \<and>
      (\<forall>dir tbl p err r. (dir, tbl) \<in> set (dcache st) \<longrightarrow> (p, (err, Some r)) \<in> set tbl \<longrightarrow>
         cached_file st r))"

definition dynamic_ok :: "state \<Rightarrow> bool" where
  "dynamic_ok st =
     (\<forall>f \<in> set (heap st). \<forall>ds. dependencies f = Some ds \<longrightarrow>
        (\<forall>d \<in> set ds. \<not> static d \<longrightarrow>
           dep_file d = None \<and> error d = Some ''Unable to resolve dynamic dependency''))"

definition graph_ok :: "state \<Rightarrow> bool" where
  "graph_ok st = (wf_cache st \<and> graph_closed st)"

text \<open>
  What a call of the grapher does to the state: file objects keep their address, their
  path and their contents, a dependency list once assigned stays assigned, the entries of
  \<open>Resolver.cache\<close> are kept (\<open>steady\<close>); \<open>wf_cache\<close>, \<open>dynamic_ok\<close> and \<open>graph_ok\<close> are
  kept, and the measure does not increase.
\<close>

definition steady :: "state \<Rightarrow> state \<Rightarrow> bool" where
  "steady st st' =
     (length (heap st) \<le> length (heap st') \<and>
      (\<forall>i < length (heap st).
          vpath (heap st' ! i) = vpath (heap st ! i) \<and>
          contents (heap st' ! i) = contents (heap st ! i) \<and>
          (dependencies (heap st ! i) \<noteq> None \<longrightarrow> dependencies (heap st' ! i) \<noteq> None)) \<and>
      (\<forall>p r. map_of (rcache st) p = Some r \<longrightarrow> map_of (rcache st') p = Some r))"

definition basic_run :: "env \<Rightarrow> state \<Rightarrow> state \<Rightarrow> bool" where
  "basic_run e st st' =
     (steady st st' \<and> (wf_cache st \<longrightarrow> wf_cache st') \<and>
      (dynamic_ok st \<longrightarrow> dynamic_ok st') \<and> pending e st' \<le> pending e st)"

definition grapher_run :: "env \<Rightarrow> state \<Rightarrow> state \<Rightarrow> bool" where
  "grapher_run e st st' = (basic_run e st st' \<and> (graph_ok st \<longrightarrow> graph_ok st'))"

section \<open>What a scan returns\<close>

text \<open>
  The call expressions that \<open>ASTWalker.walk\<close> hands to a handler registered for
  \<open>CallExpression\<close>, in the order of the walk: the walk of the source, run with the handler
  that appends the node to a list.
\<close>

definition visited_calls :: "node \<Rightarrow> error + node list" where
  "visited_calls ast =
     walk [''CallExpression'' \<mapsto> (\<lambda>n acc. Inr (acc @ [n]))] [Single (Some ast)] []"

text \<open>
  The argument of a call that passes the test of \<open>trackRequirement\<close> (the callee is the
  identifier \<open>require\<close> and there is one argument), the path \<open>trackRequirement\<close> stores
  for an argument, and the reference it records for a call.
\<close>

definition require_argument :: "node \<Rightarrow> node option" where
  "require_argument node =
     (case fld node ''callee'' of
        Single (Some callee) \<Rightarrow>
          if ntype callee = ''Identifier'' \<and> map_of (prims callee) ''name'' = Some (PStr ''require'')
          then (case fld node ''arguments'' of
                  Multi [Some first] \<Rightarrow> Some first
                | _ \<Rightarrow> None)
          else None
      | _ \<Rightarrow> None)"

definition stored_path :: "string \<Rightarrow> node \<Rightarrow> string" where
  "stored_path src first =
     (let raw = grabSource src (nrange first)
      in if ntype first = ''Literal'' then substring raw 1 (int (length raw) - 1) else raw)"

definition reference_of :: "string \<Rightarrow> node \<Rightarrow> reference" where
  "reference_of src node =
     \<lparr>source = grabSource src (nrange node), start_pos = fst (nrange node),
      end_pos = snd (nrange node)\<rparr>"

text \<open>
  The require sites among the calls \<open>ns\<close>, each with its stored path and its reference,
  in the order of \<open>ns\<close>; and the distinct elements of a list in the order of their first
  sighting.
\<close>

definition require_sites :: "string \<Rightarrow> node list \<Rightarrow> (string \<times> reference) list" where
  "require_sites src ns =
     List.map_filter
       (\<lambda>n. map_option (\<lambda>first. (stored_path src first, reference_of src n)) (require_argument n))
       ns"

definition first_sightings :: "'a list \<Rightarrow> 'a list" where
  "first_sightings xs = foldl (\<lambda>seen x. if x \<in> set seen then seen else seen @ [x]) [] xs"

text \<open>A handler run over a list of nodes, from left to right, up to its first error.\<close>

fun handle_all :: "('a \<Rightarrow> 's \<Rightarrow> error + 's) \<Rightarrow> 'a list \<Rightarrow> 's \<Rightarrow> error + 's" where
  "handle_all h [] st = Inr st"
| "handle_all h (x # xs) st = (case h x st of Inl e \<Rightarrow> Inl e | Inr st' \<Rightarrow> handle_all h xs st')"

text \<open>
  The table of requirements \<open>required\<close> holds the sites \<open>sites\<close> folded by their
  stored path: its keys are the stored paths in the order of their first sighting, and the
  descriptor under a path has that path and the references of the sites with that path.
\<close>

definition folded :: "(string \<times> requirement) list \<Rightarrow> (string \<times> reference) list \<Rightarrow> bool" where
  "folded required sites =
     (map fst required = first_sightings (map fst sites) \<and>
      (\<forall>p r. (p, r) \<in> set required \<longrightarrow>
         path r = p \<and> references r = map snd (filter (\<lambda>s. fst s = p) sites)))"

section \<open>Sample syntax trees\<close>

text \<open>Constructors for the trees the parser returns on small sources.\<close>

definition mk_identifier :: "string \<Rightarrow> nat \<times> nat \<Rightarrow> node" where
  "mk_identifier nm r = Node ''Identifier'' r [(''name'', PStr nm)] []"

definition mk_literal :: "prim \<Rightarrow> nat \<times> nat \<Rightarrow> node" where
  "mk_literal v r = Node ''Literal'' r [(''value'', v)] []"

definition mk_call_expression :: "node \<Rightarrow> node list \<Rightarrow> nat \<times> nat \<Rightarrow> node" where
  "mk_call_expression c as r =
     Node ''CallExpression'' r []
       [(''callee'', Single (Some c)), (''arguments'', Multi (map Some as))]"

definition mk_expression_statement :: "node \<Rightarrow> nat \<times> nat \<Rightarrow> node" where
  "mk_expression_statement e r =
     Node ''ExpressionStatement'' r [] [(''expression'', Single (Some e))]"

definition mk_block_statement :: "node list \<Rightarrow> nat \<times> nat \<Rightarrow> node" where
  "mk_block_statement b r = Node ''BlockStatement'' r [] [(''body'', Multi (map Some b))]"

definition mk_program :: "node list \<Rightarrow> nat \<times> nat \<Rightarrow> node" where
  "mk_program b r = Node ''Program'' r [] [(''body'', Multi (map Some b))]"

text \<open>\<^verbatim>\<open>switch (x) { case 1: require('a'); }\<close>\<close>

definition switch_source :: string where
  "switch_source = ''switch (x) { case 1: require('a'); }''"

definition switch_tree :: node where
  "switch_tree =
     mk_program
       [Node ''SwitchStatement'' (0, 36) []
          [(''discriminant'', Single (Some (mk_identifier ''x'' (8, 9)))),
           (''cases'', Multi
              [Some (Node ''SwitchCase'' (13, 34) []
                  [(''test'', Single (Some (mk_literal (PNum 1) (18, 19)))),
                   (''consequent'', Multi
                      [Some (mk_expression_statement
                          (mk_call_expression (mk_identifier ''require'' (21, 28))
                             [mk_literal (PStr ''a'') (29, 32)] (21, 33))
                          (21, 34))])])])]]
       (0, 36)"

text \<open>\<^verbatim>\<open>try { require('a'); } catch (e) { }\<close>\<close>

definition try_source :: string where
  "try_source = ''try { require('a'); } catch (e) { }''"

definition try_tree :: node where
  "try_tree =
     mk_program
       [Node ''TryStatement'' (0, 35) []
          [(''block'', Single (Some (mk_block_statement
              [mk_expression_statement
                 (mk_call_expression (mk_identifier ''require'' (6, 13))
                    [mk_literal (PStr ''a'') (14, 17)] (6, 18))
                 (6, 19)]
              (4, 21)))),
           (''handler'', Single (Some (Node ''CatchClause'' (22, 35) []
              [(''param'', Single (Some (mk_identifier ''e'' (29, 30)))),
               (''body'', Single (Some (mk_block_statement [] (32, 35))))]))),
           (''finalizer'', Single None)]]
       (0, 35)"

text \<open>\<^verbatim>\<open>(function () { require('a'); })\<close>\<close>

definition function_source :: string where
  "function_source = ''(function () { require('a'); })''"

definition function_tree :: node where
  "function_tree =
     mk_program
       [mk_expression_statement
          (Node ''FunctionExpression'' (1, 30) []
             [(''id'', Single None), (''params'', Multi []), (''defaults'', Multi []),
              (''body'', Single (Some (mk_block_statement
                 [mk_expression_statement
                    (mk_call_expression (mk_identifier ''require'' (15, 22))
                       [mk_literal (PStr ''a'') (23, 26)] (15, 27))
                    (15, 28)]
                 (13, 30)))),
              (''rest'', Single None)])
          (0, 31)]
       (0, 31)"


text \<open>The calls \<^verbatim>\<open>require('a')\<close> and \<^verbatim>\<open>require(42)\<close>.\<close>

definition literal_call_source :: string where
  "literal_call_source = ''require('a')''"

definition literal_call :: node where
  "literal_call =
     mk_call_expression (mk_identifier ''require'' (0, 7)) [mk_literal (PStr ''a'') (8, 11)] (0, 12)"

definition numeric_call_source :: string where
  "numeric_call_source = ''require(42)''"

definition numeric_call :: node where
  "numeric_call =
     mk_call_expression (mk_identifier ''require'' (0, 7)) [mk_literal (PNum 42) (8, 10)] (0, 11)"

text \<open>
  The call \<^verbatim>\<open>require('constructor')\<close>, and the file
  \<^verbatim>\<open>require(a); require('a')\<close>.
\<close>

definition constructor_call_source :: string where
  "constructor_call_source = ''require('constructor')''"

definition constructor_call :: node where
  "constructor_call =
     mk_call_expression (mk_identifier ''require'' (0, 7))
       [mk_literal (PStr ''constructor'') (8, 21)] (0, 22)"

definition mixed_source :: string where
  "mixed_source = ''require(a); require('a')''"

definition mixed_tree :: node where
  "mixed_tree =
     mk_program
       [mk_expression_statement
          (mk_call_expression (mk_identifier ''require'' (0, 7)) [mk_identifier ''a'' (8, 9)]
             (0, 10))
          (0, 11),
        mk_expression_statement
          (mk_call_expression (mk_identifier ''require'' (12, 19))
             [mk_literal (PStr ''a'') (20, 23)] (12, 24))
          (12, 24)]
       (0, 24)"


text \<open>
  The file \<^verbatim>\<open>require('2'); require('1'); require('2')\<close> and the descriptors the scanner
  returns for it.
\<close>

definition numbered_source :: string where
  "numbered_source = ''require('2'); require('1'); require('2')''"

definition numbered_tree :: node where
  "numbered_tree =
     mk_program
       [mk_expression_statement
          (mk_call_expression (mk_identifier ''require'' (0, 7))
             [mk_literal (PStr ''2'') (8, 11)] (0, 12))
          (0, 13),
        mk_expression_statement
          (mk_call_expression (mk_identifier ''require'' (14, 21))
             [mk_literal (PStr ''1'') (22, 25)] (14, 26))
          (14, 27),
        mk_expression_statement
          (mk_call_expression (mk_identifier ''require'' (28, 35))
             [mk_literal (PStr ''2'') (36, 39)] (28, 40))
          (28, 40)]
       (0, 40)"

definition numbered_descriptors :: "requirement list" where
  "numbered_descriptors =
     [\<lparr>references = [\<lparr>source = ''require('1')'', start_pos = 14, end_pos = 26\<rparr>],
       path = ''1'', static = True\<rparr>,
      \<lparr>references = [\<lparr>source = ''require('2')'', start_pos = 0, end_pos = 12\<rparr>,
                     \<lparr>source = ''require('2')'', start_pos = 28, end_pos = 40\<rparr>],
       path = ''2'', static = True\<rparr>]"


section \<open>Sample file systems\<close>

text \<open>
  The state of a fresh process, and an environment with working directory \<open>/a\<close>, the
  given files, a \<open>JSON.parse\<close> that knows the given manifests and raises on any other
  text, and a parser that knows the given sources and raises on any other text.
\<close>

definition empty_state :: state where
  "empty_state = \<lparr>heap = [], rcache = [], dcache = [], reads = []\<rparr>"

definition sample_env ::
  "(string \<times> string) list \<Rightarrow> (string \<times> json) list \<Rightarrow> (string \<times> node) list \<Rightarrow> env"
where
  "sample_env files manifests trees =
     \<lparr>cwd = ''/a'', fs = files,
      parse = (\<lambda>src. case map_of trees src of Some t \<Rightarrow> Inr t | None \<Rightarrow> Inl SyntaxError),
      json_parse = map_of manifests\<rparr>"


section \<open>Sample dependency graphs\<close>

text \<open>
  The source \<^verbatim>\<open>require('p')\<close> of a file whose only statement requires \<open>p\<close>, the tree
  the parser returns for it, and the one reference the scanner records in it.
\<close>

definition require_source :: "string \<Rightarrow> string" where
  "require_source p = ''require('' @ [CHR 0x27] @ p @ [CHR 0x27] @ '')''"

definition require_tree :: "string \<Rightarrow> node" where
  "require_tree p =
     mk_program
       [mk_expression_statement
          (mk_call_expression (mk_identifier ''require'' (0, 7))
             [mk_literal (PStr p) (8, 10 + length p)] (0, 11 + length p))
          (0, 11 + length p)]
       (0, 11 + length p)"

definition require_reference :: "string \<Rightarrow> reference" where
  "require_reference p =
     \<lparr>source = require_source p, start_pos = 0, end_pos = 11 + length p\<rparr>"

text \<open>
  Two files that require each other: \<open>/a/x.js\<close> is \<^verbatim>\<open>require('./y')\<close> and \<open>/a/y.js\<close> is
  \<^verbatim>\<open>require('./x')\<close>. \<open>cycle_root\<close> is the state once the facade has resolved \<open>./x\<close> in
  a fresh process, \<open>cycle_entered\<close> the state once \<open>analyze\<close> has assigned the empty
  dependency list to \<open>/a/x.js\<close>, \<open>cycle_graph\<close> the state at the end of the analysis.
\<close>

definition cycle_env :: env where
  "cycle_env =
     sample_env [(''/a/x.js'', require_source ''./y''), (''/a/y.js'', require_source ''./x'')] []
       [(require_source ''./y'', require_tree ''./y''), (require_source ''./x'', require_tree ''./x'')]"

definition cycle_root :: state where
  "cycle_root =
     \<lparr>heap = [\<lparr>vpath = ''/a/x.js'', contents = Some (require_source ''./y''),
               dependencies = None\<rparr>],
      rcache = [(''/a/x.js'', 0)], dcache = [], reads = [''/a/x'', ''/a/x.js'']\<rparr>"

definition cycle_entered :: state where
  "cycle_entered =
     \<lparr>heap = [\<lparr>vpath = ''/a/x.js'', contents = Some (require_source ''./y''),
               dependencies = Some []\<rparr>],
      rcache = [(''/a/x.js'', 0)], dcache = [], reads = [''/a/x'', ''/a/x.js'']\<rparr>"

definition cycle_graph :: state where
  "cycle_graph =
     \<lparr>heap =
        [\<lparr>vpath = ''/a/x.js'', contents = Some (require_source ''./y''),
          dependencies =
            Some [\<lparr>references = [require_reference ''./y''], path = ''./y'', static = True,
                   dep_file = Some 1, error = None\<rparr>]\<rparr>,
         \<lparr>vpath = ''/a/y.js'', contents = Some (require_source ''./x''),
          dependencies =
            Some [\<lparr>references = [require_reference ''./x''], path = ''./x'', static = True,
                   dep_file = Some 0, error = None\<rparr>]\<rparr>],
      rcache = [(''/a/x.js'', 0), (''/a/y.js'', 1)],
      dcache = [(''/a'', [(''./y'', None, Some 1), (''./x'', None, Some 0)])],
      reads = [''/a/x'', ''/a/x.js'', ''/a/y'', ''/a/y.js'', ''/a/x'']\<rparr>"

text \<open>
  A file with a dynamic requirement: \<open>/a/d.js\<close> is \<^verbatim>\<open>require(name)\<close>. \<open>dynamic_root\<close> is
  the state once the facade has resolved \<open>./d\<close> in a fresh process, \<open>dynamic_graph\<close> the
  state at the end of the analysis.
\<close>

definition dynamic_source :: string where
  "dynamic_source = ''require(name)''"

definition dynamic_tree :: node where
  "dynamic_tree =
     mk_program
       [mk_expression_statement
          (mk_call_expression (mk_identifier ''require'' (0, 7))
             [mk_identifier ''name'' (8, 12)] (0, 13))
          (0, 13)]
       (0, 13)"

definition dynamic_env :: env where
  "dynamic_env = sample_env [(''/a/d.js'', dynamic_source)] [] [(dynamic_source, dynamic_tree)]"

definition dynamic_root :: state where
  "dynamic_root =
     \<lparr>heap = [\<lparr>vpath = ''/a/d.js'', contents = Some dynamic_source, dependencies = None\<rparr>],
      rcache = [(''/a/d.js'', 0)], dcache = [], reads = [''/a/d'', ''/a/d.js'']\<rparr>"

definition dynamic_graph :: state where
  "dynamic_graph =
     \<lparr>heap =
        [\<lparr>vpath = ''/a/d.js'', contents = Some dynamic_source,
          dependencies =
            Some [\<lparr>references = [\<lparr>source = dynamic_source, start_pos = 0, end_pos = 13\<rparr>],
                   path = ''name'', static = False, dep_file = None,
                   error = Some ''Unable to resolve dynamic dependency''\<rparr>]\<rparr>],
      rcache = [(''/a/d.js'', 0)], dcache = [], reads = [''/a/d'', ''/a/d.js'']\<rparr>"

text \<open>A file object with no contents (\<open>file.isNull()\<close>), alone in the heap.\<close>

definition null_state :: state where
  "null_state =
     \<lparr>heap = [\<lparr>vpath = ''/a/n.js'', contents = None, dependencies = None\<rparr>],
      rcache = [], dcache = [], reads = []\<rparr>"

text \<open>
  The requirement the scanner returns for \<open>/a/d.js\<close>, and the state once \<open>analyze\<close> has
  assigned the empty dependency list to that file.
\<close>

definition dynamic_requirement :: requirement where
  "dynamic_requirement =
     \<lparr>references = [\<lparr>source = dynamic_source, start_pos = 0, end_pos = 13\<rparr>],
      path = ''name'', static = False\<rparr>"

definition dynamic_entered :: state where
  "dynamic_entered =
     \<lparr>heap = [\<lparr>vpath = ''/a/d.js'', contents = Some dynamic_source, dependencies = Some []\<rparr>],
      rcache = [(''/a/d.js'', 0)], dcache = [], reads = [''/a/d'', ''/a/d.js'']\<rparr>"


text \<open>
  A file the parser rejects: \<open>/a/b.js\<close> is \<^verbatim>\<open>require(\<close>. \<open>broken_root\<close> is the state once
  the facade has resolved \<open>./b\<close> in a fresh process.
\<close>

definition broken_env :: env where
  "broken_env = sample_env [(''/a/b.js'', ''require('')] [] []"

definition broken_root :: state where
  "broken_root =
     \<lparr>heap = [\<lparr>vpath = ''/a/b.js'', contents = Some ''require('', dependencies = None\<rparr>],
      rcache = [(''/a/b.js'', 0)], dcache = [], reads = [''/a/b'', ''/a/b.js'']\<rparr>"

section \<open>What the scanner records for a call (C6)\<close>

lemma substring_strip:
  "2 \<le> length raw \<Longrightarrow> substring raw 1 (int (length raw) - 1) = butlast (tl raw)"
  by (cases raw)
     (auto simp: substring_def Let_def min_def max_def butlast_conv_take drop_Suc nat_diff_distrib')

lemma update_fresh: "map_of al p = None \<Longrightarrow> AList.update p r al = al @ [(p, r)]"
  by (induction al) (auto split: if_splits)

lemma update_snoc_fresh:
  "map_of al p = None \<Longrightarrow> AList.update p r' (al @ [(p, r)]) = al @ [(p, r')]"
  by (induction al) (auto split: if_splits)

lemmas tree_defs = mk_program_def mk_block_statement_def mk_expression_statement_def
  mk_call_expression_def mk_literal_def mk_identifier_def

text \<open>
  Claim C6: a call expression yields a descriptor iff its callee is the identifier
  \<open>require\<close> and it has exactly one argument; the descriptor is static, with the quotes
  of the argument stripped, when the argument is a string literal, and dynamic, with the
  raw source slice, otherwise. \<open>trackRequirement\<close> does not do so on three inputs.

  \<^item> \<^verbatim>\<open>require('constructor')\<close> qualifies and its argument is a string literal, but no
    descriptor is produced: \<open>required[path]\<close> finds the property \<open>constructor\<close> that the
    table inherits from \<open>Object.prototype\<close>, no descriptor is created, and
    \<open>.references.push\<close> raises a \<open>TypeError\<close>, which ends \<open>Required.analyze\<close> of the
    whole file.
  \<^item> \<^verbatim>\<open>require(42)\<close>: the argument is a literal that is not a string; the call is recorded
    as static and the clean-up of the quotes leaves the empty path
    \<open>"42".substring(1, 1)\<close>.
  \<^item> \<^verbatim>\<open>require(a); require('a')\<close>: the raw slice \<open>a\<close> of the first call and the stripped
    slice of the second are the same key, so the call with the string literal is folded
    into the dynamic descriptor of the first call.
\<close>

theorem trackRequirement_fails_on_inherited_path:
  "Required_analyze
     (\<lambda>src. Inr (mk_program [mk_expression_statement constructor_call (0, 22)] (0, 22)))
     (Some \<lparr>vpath = ''/a/main.js'', contents = Some constructor_call_source\<rparr>) =
     Inl TypeError \<and>
   is_string_literal (mk_literal (PStr ''constructor'') (8, 21)) \<and>
   Required_analyze
     (\<lambda>src. Inr (mk_program [mk_expression_statement numeric_call (0, 11)] (0, 11)))
     (Some \<lparr>vpath = ''/a/main.js'', contents = Some numeric_call_source\<rparr>) =
     Inr (Some [\<lparr>references = [\<lparr>source = ''require(42)'', start_pos = 0, end_pos = 11\<rparr>],
                 path = '''', static = True\<rparr>]) \<and>
   \<not> is_string_literal (mk_literal (PNum 42) (8, 10)) \<and>
   Required_analyze (\<lambda>src. Inr mixed_tree)
     (Some \<lparr>vpath = ''/a/main.js'', contents = Some mixed_source\<rparr>) =
     Inr (Some [\<lparr>references =
                   [\<lparr>source = ''require(a)'', start_pos = 0, end_pos = 10\<rparr>,
                    \<lparr>source = ''require('a')'', start_pos = 12, end_pos = 24\<rparr>],
                 path = ''a'', static = False\<rparr>])"
  by code_simp

section \<open>Facts about the resolver\<close>

lemma logged_simps [simp]:
  "reads (logged st ps) = reads st @ ps" "heap (logged st ps) = heap st"
  "rcache (logged st ps) = rcache st" "dcache (logged st ps) = dcache st"
  "logged (logged st ps) qs = logged st (ps @ qs)" "logged st [] = st"
  by (simp_all add: logged_def)

lemma readFile_eq: "readFile e p st = (map_of (fs e) p, logged st [p])"
  by (simp add: readFile_def logged_def)

lemma loadFile_done:
  "length (extensions opts) \<le> ext \<Longrightarrow> loadFile opts e f ext st = ((None, None), st)"
  by (subst loadFile.simps) simp

lemma loadFile_cached:
  "ext < length (extensions opts) \<Longrightarrow> map_of (rcache st) (f @ extensions opts ! ext) = Some r \<Longrightarrow>
   loadFile opts e f ext st = ((None, Some r), st)"
  by (subst loadFile.simps) (simp add: Let_def)

lemma loadFile_miss:
  "ext < length (extensions opts) \<Longrightarrow> map_of (rcache st) (f @ extensions opts ! ext) = None \<Longrightarrow>
   map_of (fs e) (f @ extensions opts ! ext) = None \<Longrightarrow>
   loadFile opts e f ext st = loadFile opts e f (Suc ext) (logged st [f @ extensions opts ! ext])"
  by (subst loadFile.simps) (simp add: Let_def readFile_eq)

lemma loadFile_read:
  "ext < length (extensions opts) \<Longrightarrow> map_of (rcache st) (f @ extensions opts ! ext) = None \<Longrightarrow>
   map_of (fs e) (f @ extensions opts ! ext) = Some data \<Longrightarrow>
   loadFile opts e f ext st =
     ((None, Some (length (heap st))),
      (logged st [f @ extensions opts ! ext])
        \<lparr>heap := heap st @ [\<lparr>vpath = f @ extensions opts ! ext, contents = Some data,
                               dependencies = None\<rparr>],
         rcache := AList.update (f @ extensions opts ! ext) (length (heap st)) (rcache st)\<rparr>)"
  by (subst loadFile.simps) (simp add: Let_def readFile_eq)

lemma loadFile_cases:
  obtains (exhausted) "length (extensions opts) \<le> ext"
  | (cached) r where "ext < length (extensions opts)"
      "map_of (rcache st) (f @ extensions opts ! ext) = Some r"
  | (miss) "ext < length (extensions opts)" "map_of (rcache st) (f @ extensions opts ! ext) = None"
      "map_of (fs e) (f @ extensions opts ! ext) = None"
  | (fresh) data where "ext < length (extensions opts)"
      "map_of (rcache st) (f @ extensions opts ! ext) = None"
      "map_of (fs e) (f @ extensions opts ! ext) = Some data"
  by (cases "length (extensions opts) \<le> ext"; cases "map_of (rcache st) (f @ extensions opts ! ext)";
      cases "map_of (fs e) (f @ extensions opts ! ext)") auto

lemma loadFile_err: "fst (fst (loadFile opts e f ext st)) = None"
proof (induction "length (extensions opts) - ext" arbitrary: ext st)
  case 0
  then show ?case by (simp add: loadFile_done)
next
  case (Suc k)
  show ?case
  proof (cases rule: loadFile_cases[where opts=opts and ext=ext and st=st and f=f and e=e])
    case exhausted then show ?thesis by (simp add: loadFile_done)
  next
    case (cached r) then show ?thesis by (simp add: loadFile_cached)
  next
    case miss
    have k: "k = length (extensions opts) - Suc ext" using Suc(2) by arith
    from miss Suc(1)[OF k] show ?thesis by (simp add: loadFile_miss)
  next
    case (fresh data) then show ?thesis by (simp add: loadFile_read)
  qed
qed

lemma loadFile_reads:
  "\<exists>n. reads (snd (loadFile opts e f ext st)) =
       reads st @ map ((@) f) (take n (drop ext (extensions opts)))"
proof (induction "length (extensions opts) - ext" arbitrary: ext st)
  case 0
  then show ?case by (simp add: loadFile_done)
next
  case (Suc k)
  show ?case
  proof (cases rule: loadFile_cases[where opts=opts and ext=ext and st=st and f=f and e=e])
    case exhausted then show ?thesis by (simp add: loadFile_done)
  next
    case (cached r)
    then have "reads (snd (loadFile opts e f ext st)) =
       reads st @ map ((@) f) (take 0 (drop ext (extensions opts)))" by (simp add: loadFile_cached)
    then show ?thesis by blast
  next
    case miss
    have d: "drop ext (extensions opts) = extensions opts ! ext # drop (Suc ext) (extensions opts)"
      using miss(1) by (simp add: Cons_nth_drop_Suc)
    have k: "k = length (extensions opts) - Suc ext" using Suc(2) by arith
    from Suc(1)[OF k, of "logged st [f @ extensions opts ! ext]"]
    obtain n where "reads (snd (loadFile opts e f (Suc ext) (logged st [f @ extensions opts ! ext]))) =
       reads (logged st [f @ extensions opts ! ext]) @ map ((@) f) (take n (drop (Suc ext) (extensions opts)))"
      by auto
    then have "reads (snd (loadFile opts e f ext st)) =
       reads st @ map ((@) f) (take (Suc n) (drop ext (extensions opts)))"
      using miss d by (simp add: loadFile_miss)
    then show ?thesis by blast
  next
    case (fresh data)
    have d: "drop ext (extensions opts) = extensions opts ! ext # drop (Suc ext) (extensions opts)"
      using fresh(1) by (simp add: Cons_nth_drop_Suc)
    have "reads (snd (loadFile opts e f ext st)) =
       reads st @ map ((@) f) (take 1 (drop ext (extensions opts)))"
      using fresh d by (simp add: loadFile_read)
    then show ?thesis by blast
  qed
qed


lemma loadDirectory_exhausted:
  "length (packages opts) \<le> i \<Longrightarrow>
   loadDirectory opts e d i st = Inr (loadFile opts e (path_resolve (cwd e) [d, index opts]) 0 st)"
  by (subst loadDirectory.simps) simp

lemma loadDirectory_unreadable:
  "i < length (packages opts) \<Longrightarrow>
   map_of (fs e) (path_resolve (cwd e) [d, packages opts ! i]) = None \<Longrightarrow>
   loadDirectory opts e d i st =
     loadDirectory opts e d (Suc i) (logged st [path_resolve (cwd e) [d, packages opts ! i]])"
  by (subst loadDirectory.simps) (simp add: Let_def readFile_eq)

lemma loadDirectory_readable:
  assumes "i < length (packages opts)"
    and "map_of (fs e) (path_resolve (cwd e) [d, packages opts ! i]) = Some data"
  shows "loadDirectory opts e d i st =
     manifest_resolution opts e d (path_resolve (cwd e) [d, packages opts ! i]) data
       (logged st [path_resolve (cwd e) [d, packages opts ! i]])"
proof -
  have fin: "\<And>st2. loadDirectory opts e d (length (packages opts)) st2 =
      Inr (loadFile opts e (path_resolve (cwd e) [d, index opts]) 0 st2)"
    by (simp add: loadDirectory_exhausted)
  show ?thesis
    apply (subst loadDirectory.simps)
    apply (simp only: fin)
    using assms
    apply (simp add: readFile_eq manifest_resolution_def)
    apply (simp only: Let_def)
    done
qed

lemma directory_resolution_Nil:
  "directory_resolution opts e d [] st =
     Inr (loadFile opts e (path_resolve (cwd e) [d, index opts]) 0 st)"
  by (simp add: directory_resolution_def)

lemma directory_resolution_unreadable:
  assumes "map_of (fs e) (path_resolve (cwd e) [d, m]) = None"
  shows "directory_resolution opts e d (m # ms) st =
     directory_resolution opts e d ms (logged st [path_resolve (cwd e) [d, m]])"
proof -
  obtain missed found where fm:
    "first_manifest e (map (\<lambda>m. path_resolve (cwd e) [d, m]) ms) = (missed, found)"
    by (cases "first_manifest e (map (\<lambda>m. path_resolve (cwd e) [d, m]) ms)")
  show ?thesis
  proof (cases found)
    case None
    with assms fm show ?thesis by (simp add: directory_resolution_def)
  next
    case (Some pd)
    obtain pp data where "pd = (pp, data)" by (cases pd)
    with Some assms fm show ?thesis by (simp add: directory_resolution_def)
  qed
qed

lemma directory_resolution_readable:
  "map_of (fs e) (path_resolve (cwd e) [d, m]) = Some data \<Longrightarrow>
   directory_resolution opts e d (m # ms) st =
     manifest_resolution opts e d (path_resolve (cwd e) [d, m]) data
       (logged st [path_resolve (cwd e) [d, m]])"
  by (simp add: directory_resolution_def)

lemma loadDirectory_directory_resolution:
  "loadDirectory opts e directory packageFile st =
     directory_resolution opts e directory (drop packageFile (packages opts)) st"
proof (induction "length (packages opts) - packageFile" arbitrary: packageFile st)
  case 0
  then show ?case by (simp add: loadDirectory_exhausted directory_resolution_Nil)
next
  case (Suc k)
  then have lt: "packageFile < length (packages opts)" by arith
  have d: "drop packageFile (packages opts) =
      packages opts ! packageFile # drop (Suc packageFile) (packages opts)"
    using lt by (simp add: Cons_nth_drop_Suc)
  have k: "k = length (packages opts) - Suc packageFile" using Suc(2) by arith
  show ?case
  proof (cases "map_of (fs e) (path_resolve (cwd e) [directory, packages opts ! packageFile])")
    case None
    show ?thesis
      unfolding d loadDirectory_unreadable[OF lt None] directory_resolution_unreadable[OF None]
      by (rule Suc(1)[OF k])
  next
    case (Some data)
    show ?thesis
      unfolding d loadDirectory_readable[OF lt Some] directory_resolution_readable[OF Some]
      by (rule refl)
  qed
qed

lemma RELATIVE_PATH_nonempty: "RELATIVE_PATH m \<Longrightarrow> m \<noteq> []"
  by (auto simp: RELATIVE_PATH_def)

lemma manifest_resolution_outcome:
  assumes "manifest_resolution opts e d p data st = Inr ((err, f), st')"
  shows "err = None \<or> (f = None \<and> err = Some (''Package file is incorrectly formatted: '' @ p))"
proof (cases "json_parse e data")
  case None
  with assms show ?thesis by (simp add: manifest_resolution_def)
next
  case (Some manifest)
  note m = this
  show ?thesis
  proof (cases "getEntryPoint opts manifest (mains opts)")
    case (Inl x)
    with assms m show ?thesis by (simp add: manifest_resolution_def)
  next
    case (Inr v)
    show ?thesis
    proof (cases v)
      case (JStr entry)
      let ?ep = "path_resolve (cwd e) [d, entry]"
      obtain r1 st1 where l1: "loadFile opts e ?ep 0 st = (r1, st1)" by (cases "loadFile opts e ?ep 0 st")
      obtain r2 st2 where l2: "loadFile opts e (path_resolve (cwd e) [?ep, index opts]) 0 st1 = (r2, st2)"
        by (cases "loadFile opts e (path_resolve (cwd e) [?ep, index opts]) 0 st1")
      obtain r3 st3 where l3: "loadFile opts e (path_resolve (cwd e) [d, index opts]) 0 st2 = (r3, st3)"
        by (cases "loadFile opts e (path_resolve (cwd e) [d, index opts]) 0 st2")
      have e3: "fst r3 = None" using loadFile_err[of opts e "path_resolve (cwd e) [d, index opts]" 0 st2] l3 by simp
      from assms m Inr JStr l1 l2 l3 e3 show ?thesis
        by (cases r1; cases r2; cases r3)
           (auto simp: manifest_resolution_def Let_def split: option.splits)
    qed (use assms m Inr in \<open>simp_all add: manifest_resolution_def\<close>)
  qed
qed

lemma first_manifest_path:
  "first_manifest e ps = (missed, Some (p, data)) \<Longrightarrow> p \<in> set ps"
  by (induction ps arbitrary: missed) (auto split: option.splits prod.splits)

lemma directory_resolution_outcome:
  assumes "directory_resolution opts e d ms st = Inr ((err, f), st')"
  shows "err = None \<or> (f = None \<and> (\<exists>p. err = Some (''Package file is incorrectly formatted: '' @ p)))"
proof -
  obtain missed found where fm:
    "first_manifest e (map (\<lambda>m. path_resolve (cwd e) [d, m]) ms) = (missed, found)"
    by (cases "first_manifest e (map (\<lambda>m. path_resolve (cwd e) [d, m]) ms)")
  show ?thesis
  proof (cases found)
    case None
    with assms fm loadFile_err[of opts e "path_resolve (cwd e) [d, index opts]" 0 "logged st missed"]
    show ?thesis by (auto simp: directory_resolution_def)
  next
    case (Some pd)
    obtain pp data where "pd = (pp, data)" by (cases pd)
    with Some assms fm manifest_resolution_outcome[of opts e d pp data "logged st (missed @ [pp])" err f st']
    show ?thesis by (auto simp: directory_resolution_def)
  qed
qed


lemma resolveModule_empty:
  "resolveModule opts e [] name directory st = Inr ((None, None), st)"
  by (subst resolveModule.simps) simp

lemma resolveModule_no_modules:
  "base \<noteq> [] \<Longrightarrow> length (modules opts) \<le> directory \<Longrightarrow>
   resolveModule opts e base name directory st = Inl TypeError"
  by (subst resolveModule.simps) simp

lemma resolveModule_probe:
  "base \<noteq> [] \<Longrightarrow> directory < length (modules opts) \<Longrightarrow>
   resolveModule opts e base name directory st =
     (case resolveRelative opts e
             (path_resolve (cwd e) [base, modules opts ! directory, name]) st of
        Inl err \<Rightarrow> Inl err
      | Inr ((err, Some f), st') \<Rightarrow> Inr ((None, Some f), st')
      | Inr ((err, None), st') \<Rightarrow>
          (if length (modules opts) \<le> Suc directory
           then resolveModule opts e (truncate_base base) name 0 st'
           else resolveModule opts e base name (Suc directory) st'))"
  apply (subst resolveModule.simps)
  apply (simp only: Let_def)
  apply simp
  apply (unfold Suc_eq_plus1)
  apply (rule refl)
  done

lemma module_bases_Nil: "module_bases [] = []"
  by (subst module_bases.simps) simp

lemma module_bases_Cons:
  "base \<noteq> [] \<Longrightarrow> module_bases base = base # module_bases (truncate_base base)"
  by (subst module_bases.simps) simp

lemma module_candidates_Nil: "module_candidates opts e [] name = []"
  by (simp add: module_candidates_def module_bases_Nil)

lemma module_candidates_Cons:
  "base \<noteq> [] \<Longrightarrow> module_candidates opts e base name =
     map (\<lambda>m. path_resolve (cwd e) [base, m, name]) (modules opts) @
     module_candidates opts e (truncate_base base) name"
  by (simp add: module_candidates_def module_bases_Cons)

lemma resolveModule_candidates:
  "base \<noteq> [] \<Longrightarrow> directory < length (modules opts) \<Longrightarrow>
   resolveModule opts e base name directory st =
     first_resolved opts e
       (map (\<lambda>m. path_resolve (cwd e) [base, m, name]) (drop directory (modules opts)) @
        module_candidates opts e (truncate_base base) name) st"
proof (induction "length base * Suc (length (modules opts)) + (length (modules opts) - directory)"
    arbitrary: base directory st rule: less_induct)
  case less
  let ?M = "length (modules opts)"
  let ?c = "path_resolve (cwd e) [base, modules opts ! directory, name]"
  have d: "drop directory (modules opts) = modules opts ! directory # drop (Suc directory) (modules opts)"
    using less.prems by (simp add: Cons_nth_drop_Suc)
  have tl: "length (truncate_base base) < length base"
    using less.prems by (simp add: length_truncate_base)
  have rest: "\<And>st'. (if ?M \<le> Suc directory
           then resolveModule opts e (truncate_base base) name 0 st'
           else resolveModule opts e base name (Suc directory) st') =
       first_resolved opts e
         (map (\<lambda>m. path_resolve (cwd e) [base, m, name]) (drop (Suc directory) (modules opts)) @
          module_candidates opts e (truncate_base base) name) st'"
  proof -
    fix st'
    show "?thesis st'"
    proof (cases "?M \<le> Suc directory")
      case True
      show ?thesis
      proof (cases "truncate_base base = []")
        case True
        with \<open>?M \<le> Suc directory\<close> show ?thesis
          by (simp add: resolveModule_empty module_candidates_Nil)
      next
        case False
        have m: "length (truncate_base base) * Suc ?M + (?M - 0) <
            length base * Suc ?M + (?M - directory)"
        proof -
          have "Suc (length (truncate_base base)) \<le> length base" using tl by simp
          then have "Suc (length (truncate_base base)) * Suc ?M \<le> length base * Suc ?M"
            by (rule mult_le_mono1)
          then show ?thesis by simp
        qed
        have pos: "0 < ?M" using less.prems(2) by arith
        from less.hyps[OF m False pos, of st'] True False
        show ?thesis by (simp add: module_candidates_Cons[OF False])
      qed
    next
      case False
      then have lt: "Suc directory < ?M" by simp
      have m: "length base * Suc ?M + (?M - Suc directory) <
            length base * Suc ?M + (?M - directory)" using lt by simp
      from less.hyps[OF m less.prems(1) lt, of st'] False show ?thesis by simp
    qed
  qed
  show ?case
    unfolding resolveModule_probe[OF less.prems] d list.map append_Cons first_resolved.simps rest
    by (rule refl)
qed

lemma resolveModule_first_resolved:
  "resolveModule opts e base moduleName 0 st =
     (if modules opts = [] \<and> base \<noteq> [] then Inl TypeError
      else first_resolved opts e (module_candidates opts e base moduleName) st)"
proof (cases "base = []")
  case True
  then show ?thesis by (simp add: resolveModule_empty module_candidates_Nil)
next
  case False
  show ?thesis
  proof (cases "modules opts = []")
    case True
    with False show ?thesis by (simp add: resolveModule_no_modules)
  next
    case ne: False
    then have "0 < length (modules opts)" by simp
    from resolveModule_candidates[OF False this] False ne show ?thesis
      by (simp add: module_candidates_Cons)
  qed
qed

lemma lastIndexOf_snoc_segment:
  "c \<notin> set s \<Longrightarrow> lastIndexOf (p @ c # s) c = int (length p)"
proof -
  assume "c \<notin> set s"
  then have "takeWhile (\<lambda>x. x \<noteq> c) (rev s) = rev s" by auto
  then have "takeWhile (\<lambda>x. x \<noteq> c) (rev s @ c # rev p) = rev s"
    by (simp add: takeWhile_tail)
  then show ?thesis by (simp add: lastIndexOf_def)
qed

lemma truncate_base_segment:
  "CHR ''/'' \<notin> set s \<Longrightarrow> truncate_base (p @ ''/'' @ s) = p"
  using lastIndexOf_snoc_segment[of "CHR ''/''" s p]
  by (simp add: truncate_base_def substring_def Let_def min_def max_def)

lemma module_bases_segments:
  "\<forall>s\<in>set segs. s \<noteq> [] \<and> CHR ''/'' \<notin> set s \<Longrightarrow>
   module_bases (slashed segs) = map (\<lambda>k. slashed (take k segs)) (rev [1..<Suc (length segs)])"
proof (induction segs rule: rev_induct)
  case Nil
  show ?case by (simp add: slashed_def module_bases_Nil)
next
  case (snoc s segs)
  have ne: "slashed (segs @ [s]) \<noteq> []" by (simp add: slashed_def)
  have t: "truncate_base (slashed (segs @ [s])) = slashed segs"
    using snoc.prems truncate_base_segment[of s "slashed segs"] by (simp add: slashed_def)
  have ih: "module_bases (slashed segs) = map (\<lambda>k. slashed (take k segs)) (rev [1..<Suc (length segs)])"
    using snoc by simp
  have "map (\<lambda>k. slashed (take k (segs @ [s]))) (rev [1..<Suc (length segs)]) =
        map (\<lambda>k. slashed (take k segs)) (rev [1..<Suc (length segs)])"
    by (rule map_cong) auto
  then show ?case
    unfolding module_bases_Cons[OF ne] t ih by simp
qed

section \<open>The tree walk and the statements it skips\<close>

text \<open>
  Claim C8: the walk of the scanner visits every call expression of the file, also those
  inside the cases of a switch statement, inside the block of a try statement and inside
  nested function expressions, so that each such \<open>require\<close> call yields a descriptor.
  The walker does not do so: on \<^verbatim>\<open>switch (x) { case 1: require('a'); }\<close> and on
  \<^verbatim>\<open>try { require('a'); } catch (e) { }\<close> the scanner returns no descriptor at
  all, because the walker reads \<open>nodes.cases\<close> and \<open>nodes.block\<close> (of the queue) in place
  of \<open>node.cases\<close> and \<open>node.block\<close>. The call inside a function expression is found.
\<close>

theorem walk_misses_switch_cases_and_try_block:
  "Required_analyze (\<lambda>src. Inr switch_tree)
     (Some \<lparr>vpath = ''/a/main.js'', contents = Some switch_source\<rparr>) = Inr (Some []) \<and>
   Required_analyze (\<lambda>src. Inr try_tree)
     (Some \<lparr>vpath = ''/a/main.js'', contents = Some try_source\<rparr>) = Inr (Some []) \<and>
   Required_analyze (\<lambda>src. Inr function_tree)
     (Some \<lparr>vpath = ''/a/main.js'', contents = Some function_source\<rparr>) =
     Inr (Some [\<lparr>references =
                   [\<lparr>source = ''require('a')'', start_pos = 15, end_pos = 27\<rparr>],
                 path = ''a'', static = True\<rparr>])"
  by code_simp

section \<open>Relative resolution (C2)\<close>

text \<open>
  Claim C2. For a relative specifier (one that starts with \<open>/\<close>, \<open>./\<close> or \<open>../\<close>),
  \<open>resolve\<close> joins it against the base directory (keeping a trailing \<open>/\<close>) and attempts
  file resolution at the joined path first: the reads it logs first are those of
  \<open>loadFile\<close> at the joined path, extension by extension. When that yields a file, the
  file is the outcome and nothing else is attempted; only when it misses does directory
  resolution run, at the same path and on the state the file attempt left, and its outcome
  is the outcome of \<open>resolve\<close>. An outcome without a file carries no error message,
  unless directory resolution met a manifest that does not parse.
\<close>

theorem resolve_relative:
  assumes "RELATIVE_PATH module"
  shows "let joined = path_resolve (cwd e) [base, module] @
                        (if last module = CHR ''/'' then ''/'' else []);
             attempt = loadFile opts e joined 0 st
         in fst (fst attempt) = None \<and>
            (\<exists>n. reads (snd attempt) = reads st @ map ((@) joined) (take n (extensions opts))) \<and>
            resolve opts e module (Some base) st =
              (case snd (fst attempt) of
                 Some f \<Rightarrow> Inr ((None, Some f), snd attempt)
               | None \<Rightarrow> loadDirectory opts e joined 0 (snd attempt)) \<and>
            (\<forall>err f st'. resolve opts e module (Some base) st = Inr ((err, f), st') \<longrightarrow>
               err = None \<or>
               (f = None \<and> (\<exists>p. err = Some (''Package file is incorrectly formatted: '' @ p))))"
proof -
  define joined where "joined = path_resolve (cwd e) [base, module] @
                        (if last module = CHR ''/'' then ''/'' else [])"
  obtain r1 st1 where l1: "loadFile opts e joined 0 st = (r1, st1)"
    by (cases "loadFile opts e joined 0 st")
  obtain err1 f1 where r1: "r1 = (err1, f1)" by (cases r1)
  have e1: "err1 = None" using loadFile_err[of opts e joined 0 st] l1 r1 by simp
  have rd: "\<exists>n. reads st1 = reads st @ map ((@) joined) (take n (extensions opts))"
    using loadFile_reads[of opts e joined 0 st] l1 by simp
  have ne: "module \<noteq> []" using assms by (rule RELATIVE_PATH_nonempty)
  have eq: "resolve opts e module (Some base) st =
      (case f1 of Some f \<Rightarrow> Inr ((None, Some f), st1)
       | None \<Rightarrow> loadDirectory opts e joined 0 st1)"
    using assms ne l1 r1 e1
    by (cases f1) (auto simp: resolve_def resolveRelative_def Let_def joined_def)
  have out: "\<forall>err f st'. resolve opts e module (Some base) st = Inr ((err, f), st') \<longrightarrow>
               err = None \<or>
               (f = None \<and> (\<exists>p. err = Some (''Package file is incorrectly formatted: '' @ p)))"
  proof (cases f1)
    case None
    then show ?thesis
      using eq directory_resolution_outcome[of opts e joined "drop 0 (packages opts)" st1]
      by (auto simp: loadDirectory_directory_resolution)
  next
    case (Some a)
    then show ?thesis using eq by auto
  qed
  show ?thesis
    unfolding Let_def joined_def[symmetric] l1 r1 fst_conv snd_conv
    using e1 rd eq out by (intro conjI)
qed

theorem resolve_relative_witness:
  "RELATIVE_PATH ''./lib'' \<and>
   resolve default_options (sample_env [(''/a/lib/index.js'', ''exports.x = 1'')] [] [])
      ''./lib'' (Some ''/a'') empty_state =
     Inr ((None, Some 0),
          \<lparr>heap = [\<lparr>vpath = ''/a/lib/index.js'', contents = Some ''exports.x = 1'',
                     dependencies = None\<rparr>],
           rcache = [(''/a/lib/index.js'', 0)], dcache = [],
           reads = [''/a/lib'', ''/a/lib.js'', ''/a/lib/package.json'', ''/a/lib/index'',
                    ''/a/lib/index.js'']\<rparr>)"
proof -
  have h: "RELATIVE_PATH ''./lib''" by code_simp
  have ev: "resolve default_options (sample_env [(''/a/lib/index.js'', ''exports.x = 1'')] [] [])
      ''./lib'' (Some ''/a'') empty_state =
     Inr ((None, Some 0),
          \<lparr>heap = [\<lparr>vpath = ''/a/lib/index.js'', contents = Some ''exports.x = 1'',
                     dependencies = None\<rparr>],
           rcache = [(''/a/lib/index.js'', 0)], dcache = [],
           reads = [''/a/lib'', ''/a/lib.js'', ''/a/lib/package.json'', ''/a/lib/index'',
                    ''/a/lib/index.js'']\<rparr>)"
    by code_simp
  from resolve_relative [OF h, of "sample_env [(''/a/lib/index.js'', ''exports.x = 1'')] [] []"
      "''/a''" default_options empty_state] h ev
  show ?thesis by simp
qed

section \<open>Directory resolution (C3)\<close>

text \<open>
  Claim C3, as amended. \<open>loadDirectory\<close> is the directory resolution of the
  specification, steps 1 to 7, started at the manifest it is given: the configured
  manifests are read in order, a failed read advancing to the next one; a manifest that
  \<open>JSON.parse\<close> rejects ends the resolution with the message
  \<open>Package file is incorrectly formatted: <path>\<close> and no file; when the entry point of
  the manifest resolves neither as a file nor as \<open><entry>/<index>\<close>, the remaining
  manifests are skipped and \<open><directory>/<index>\<close> is attempted.
\<close>

theorem loadDirectory_steps:
  "loadDirectory opts e directory packageFile st =
     directory_resolution opts e directory (drop packageFile (packages opts)) st"
  by (rule loadDirectory_directory_resolution)

text \<open>
  The message of the claim as stated, \<open>malformed package manifest: <path>\<close>, is not the
  one the resolver gives.
\<close>

theorem loadDirectory_malformed_manifest_message:
  "loadDirectory default_options (sample_env [(''/a/lib/package.json'', ''{main:'')] [] [])
      ''/a/lib'' 0 empty_state =
     Inr ((Some ''Package file is incorrectly formatted: /a/lib/package.json'', None),
          \<lparr>heap = [], rcache = [], dcache = [], reads = [''/a/lib/package.json'']\<rparr>) \<and>
   ''Package file is incorrectly formatted: /a/lib/package.json'' \<noteq>
   ''malformed package manifest: /a/lib/package.json''"
  by code_simp

section \<open>Bare-module resolution (C4)\<close>

text \<open>
  Claim C4: \<open>resolveModule\<close> probes \<open><base>/<moduleDir>/<name>\<close> in every ancestor
  directory of the starting base. It does not probe the root of the file system when the
  walk starts below it: the base \<open>/a\<close> is truncated at its final separator, which is its
  first character, so the next base is the empty string and the walk ends with the absent
  outcome. A module installed in \<open>/node_modules\<close> is therefore not found from the base
  \<open>/a\<close> (the log of reads holds the probes under \<open>/a/node_modules\<close> only), while the
  same walk started at \<open>/\<close> finds it.
\<close>

theorem resolveModule_skips_root:
  "resolveModule default_options (sample_env [(''/node_modules/x/index.js'', ''X'')] [] [])
      ''/a'' ''x'' 0 empty_state =
     Inr ((None, None),
          \<lparr>heap = [], rcache = [], dcache = [],
           reads = [''/a/node_modules/x'', ''/a/node_modules/x.js'',
                    ''/a/node_modules/x/package.json'', ''/a/node_modules/x/index'',
                    ''/a/node_modules/x/index.js'']\<rparr>) \<and>
   fst (projr (resolveModule default_options
      (sample_env [(''/node_modules/x/index.js'', ''X'')] [] []) ''/'' ''x'' 0 empty_state)) =
     (None, Some 0)"
  by code_simp

section \<open>Properties of the grapher\<close>

subsection \<open>The grapher as an iteration of steps\<close>

lemma resolveRequirements_Suc:
  "resolveRequirements (Suc fuel) opts e file requirements idx st =
     (case requirement_step opts e file requirements idx st of
        Finish c \<Rightarrow> c
      | Continue st' \<Rightarrow> resolveRequirements fuel opts e file requirements (idx + 1) st'
      | Descend d st' \<Rightarrow>
          (case Dependencies_analyze fuel opts e (Some d) st' of
             Called u st'' \<Rightarrow> resolveRequirements fuel opts e file requirements (idx + 1) st''
           | other \<Rightarrow> other))"
proof (cases "length requirements = idx \<or> length requirements < idx \<or> length (heap st) \<le> file")
  case True
  then show ?thesis by (auto simp: requirement_step_def)
next
  case False
  note ok = this
  show ?thesis
  proof (cases "static (requirements ! idx)")
    case False
    with ok show ?thesis
      by (simp add: requirement_step_def pushed_step_def split: sum.splits)
  next
    case True
    note st = this
    let ?dir = "dirname (vpath (heap st ! file))"
    show ?thesis
    proof (cases "Option.bind (map_of (dcache st) ?dir) (\<lambda>cached. map_of cached (path (requirements ! idx)))")
      case (Some cacheResult)
      with ok st show ?thesis
        by (simp add: requirement_step_def pushed_step_def split: sum.splits)
    next
      case None
      note miss = this
      show ?thesis
      proof (cases "resolve opts e (path (requirements ! idx)) (Some ?dir) st")
        case (Inl err)
        with ok st miss show ?thesis by (simp add: requirement_step_def)
      next
        case (Inr r)
        obtain err dependent st' where r: "r = ((err, dependent), st')" by (cases r) auto
        show ?thesis
        proof (cases dependent)
          case None
          with ok st miss Inr r show ?thesis
            by (simp add: requirement_step_def located_def cache_outcome_def split: sum.splits)
        next
          case (Some d)
          with ok st miss Inr r show ?thesis
            by (simp add: requirement_step_def located_def cache_outcome_def split: sum.splits)
        qed
      qed
    qed
  qed
qed

subsection \<open>The resolver keeps the invariants of its cache\<close>

lemma resolver_run_refl: "resolver_run e st st"
  by (simp add: resolver_run_def)

lemma resolver_run_trans:
  assumes "resolver_run e st st1" "resolver_run e st1 st2"
  shows "resolver_run e st st2"
proof -
  from assms obtain n1 n2 where "heap st1 = heap st @ n1" "heap st2 = heap st1 @ n2"
    "\<forall>f \<in> set n1. dependencies f = None \<and> contents f \<noteq> None"
    "\<forall>f \<in> set n2. dependencies f = None \<and> contents f \<noteq> None"
    unfolding resolver_run_def by blast
  then have "heap st2 = heap st @ (n1 @ n2) \<and>
      (\<forall>f \<in> set (n1 @ n2). dependencies f = None \<and> contents f \<noteq> None)" by auto
  then have h: "\<exists>news. heap st2 = heap st @ news \<and>
          (\<forall>f \<in> set news. dependencies f = None \<and> contents f \<noteq> None)" by blast
  from assms h show ?thesis unfolding resolver_run_def by (metis le_trans)
qed

lemma resolver_run_logged: "resolver_run e st (logged st ps)"
  by (simp add: resolver_run_def wf_cache_def valid_file_def pending_def unanalysed_def
      uncached_def logged_def)

lemma filter_length_drop_one:
  assumes "distinct xs" "p \<in> set xs" "P p" "\<not> Q p" "\<And>x. x \<noteq> p \<Longrightarrow> Q x = P x"
  shows "Suc (length (filter Q xs)) = length (filter P xs)"
  using assms
proof (induction xs)
  case Nil then show ?case by simp
next
  case (Cons x xs)
  show ?case
  proof (cases "x = p")
    case True
    then have "p \<notin> set xs" using Cons.prems(1) by simp
    then have "\<forall>x\<in>set xs. Q x = P x"
    proof (intro ballI)
      fix x assume "p \<notin> set xs" "x \<in> set xs"
      then have "x \<noteq> p" by auto
      then show "Q x = P x" by (rule Cons.prems(5))
    qed
    then have "filter Q xs = filter P xs" by (intro filter_cong) auto
    with True Cons.prems show ?thesis by simp
  next
    case False
    then have "p \<in> set xs" using Cons.prems(2) by simp
    with Cons have "Suc (length (filter Q xs)) = length (filter P xs)" by simp
    with False Cons.prems(5)[of x] show ?thesis by simp
  qed
qed

lemma map_of_update_other: "q \<noteq> p \<Longrightarrow> map_of (AList.update p v al) q = map_of al q"
  by (simp add: update_conv')

lemma resolver_run_fresh:
  assumes miss: "map_of (rcache st) p = None" and rd: "map_of (fs e) p = Some data"
  defines "st' \<equiv> (logged st [p])\<lparr>heap := heap st @ [\<lparr>vpath = p, contents = Some data,
                               dependencies = None\<rparr>],
         rcache := AList.update p (length (heap st)) (rcache st)\<rparr>"
  shows "resolver_run e st st'" and "wf_cache st \<Longrightarrow> cached_file st' (length (heap st))"
proof -
  have hp: "heap st' = heap st @ [\<lparr>vpath = p, contents = Some data, dependencies = None\<rparr>]"
    and rc: "rcache st' = AList.update p (length (heap st)) (rcache st)"
    and dc: "dcache st' = dcache st"
    by (simp_all add: st'_def)
  have mono: "\<forall>q r. map_of (rcache st) q = Some r \<longrightarrow> map_of (rcache st') q = Some r"
    using miss by (auto simp: rc update_conv')
  have pin: "p \<in> set (remdups (map fst (fs e)))"
    using rd by (auto dest: map_of_SomeD intro: rev_image_eqI)
  have "Suc (uncached e st') = uncached e st"
    unfolding uncached_def
    by (rule filter_length_drop_one[where p=p]) (use pin miss in \<open>auto simp: rc update_conv'\<close>)
  moreover have "unanalysed st' = Suc (unanalysed st)"
    by (simp add: unanalysed_def hp)
  ultimately have pend: "pending e st' \<le> pending e st" by (simp add: pending_def)
  have wf: "wf_cache st'" if w: "wf_cache st"
  proof -
    have pk: "p \<notin> fst ` set (rcache st)" using miss by (simp add: map_of_eq_None_iff)
    have u: "AList.update p (length (heap st)) (rcache st) = rcache st @ [(p, length (heap st))]"
      using miss by (rule update_fresh)
    have bound: "\<forall>(q, r) \<in> set (rcache st). r < length (heap st)"
      using w by (auto simp: wf_cache_def valid_file_def)
    then have nl: "length (heap st) \<notin> snd ` set (rcache st)" by force
    show ?thesis
      using w pk nl bound
      by (auto simp: wf_cache_def rc u hp valid_file_def nth_append)
  qed
  show "resolver_run e st st'"
    unfolding resolver_run_def using hp dc mono wf pend by auto
  show "cached_file st' (length (heap st))" if "wf_cache st"
    by (simp add: cached_file_def valid_file_def hp rc update_conv')
qed

lemma resolver_op_chain:
  "resolver_run e st st1 \<Longrightarrow> resolver_op e st1 r \<Longrightarrow> resolver_op e st r"
  unfolding resolver_op_def
  by (meson resolver_run_trans resolver_run_def)

lemma resolver_op_miss: "resolver_op e st ((err, None), st)"
  by (simp add: resolver_op_def resolver_run_refl)

lemma resolver_op_hit: "resolver_op e st ((err, Some f), st') \<Longrightarrow> resolver_op e st ((err', Some f), st')"
  by (simp add: resolver_op_def)

lemma wf_cache_lookup:
  "wf_cache st \<Longrightarrow> map_of (rcache st) p = Some r \<Longrightarrow> cached_file st r"
  by (auto simp: wf_cache_def cached_file_def dest!: map_of_SomeD)

lemma loadFile_op: "resolver_op e st (loadFile opts e f ext st)"
proof (induction "length (extensions opts) - ext" arbitrary: ext st)
  case 0
  then show ?case by (simp add: loadFile_done resolver_op_miss)
next
  case (Suc k)
  show ?case
  proof (cases rule: loadFile_cases[where opts=opts and ext=ext and st=st and f=f and e=e])
    case exhausted then show ?thesis by (simp add: loadFile_done resolver_op_miss)
  next
    case (cached r)
    then show ?thesis
      by (simp add: loadFile_cached resolver_op_def resolver_run_refl wf_cache_lookup)
  next
    case miss
    have k: "k = length (extensions opts) - Suc ext" using Suc(2) by arith
    from Suc(1)[OF k, of "logged st [f @ extensions opts ! ext]"] miss
    show ?thesis
      by (simp add: loadFile_miss resolver_op_chain[OF resolver_run_logged])
  next
    case (fresh data)
    from resolver_run_fresh[OF fresh(2,3)] fresh show ?thesis
      by (simp add: loadFile_read resolver_op_def)
  qed
qed

lemma manifest_resolution_op:
  assumes "manifest_resolution opts e d p data st = Inr r"
  shows "resolver_op e st r"
proof (cases "json_parse e data")
  case None
  with assms show ?thesis by (auto simp: manifest_resolution_def resolver_op_miss)
next
  case (Some manifest)
  note m = this
  show ?thesis
  proof (cases "getEntryPoint opts manifest (mains opts)")
    case (Inl x)
    with assms m show ?thesis by (simp add: manifest_resolution_def)
  next
    case (Inr v)
    show ?thesis
    proof (cases v)
      case (JStr entry)
      let ?ep = "path_resolve (cwd e) [d, entry]"
      obtain e1 f1 st1 where l1: "loadFile opts e ?ep 0 st = ((e1, f1), st1)"
        by (cases "loadFile opts e ?ep 0 st") auto
      obtain e2 f2 st2 where l2: "loadFile opts e (path_resolve (cwd e) [?ep, index opts]) 0 st1 = ((e2, f2), st2)"
        by (cases "loadFile opts e (path_resolve (cwd e) [?ep, index opts]) 0 st1") auto
      have o1: "resolver_op e st ((e1, f1), st1)" using loadFile_op[of e st opts ?ep 0] l1 by simp
      have o2: "resolver_op e st1 ((e2, f2), st2)"
        using loadFile_op[of e st1 opts "path_resolve (cwd e) [?ep, index opts]" 0] l2 by simp
      have o3: "resolver_op e st2 (loadFile opts e (path_resolve (cwd e) [d, index opts]) 0 st2)"
        by (rule loadFile_op)
      have r1: "resolver_run e st st1" using o1 by (simp add: resolver_op_def)
      have r2: "resolver_run e st1 st2" using o2 by (simp add: resolver_op_def)
      show ?thesis
      proof (cases f1)
        case (Some a)
        with assms m Inr JStr l1 have "r = ((None, Some a), st1)"
          by (simp add: manifest_resolution_def)
        with o1 Some show ?thesis by (auto intro: resolver_op_hit)
      next
        case None
        note n1 = this
        show ?thesis
        proof (cases f2)
          case (Some a)
          with assms m Inr JStr l1 l2 n1 have "r = ((None, Some a), st2)"
            by (simp add: manifest_resolution_def)
          with o2 Some r1 show ?thesis by (auto intro: resolver_op_hit resolver_op_chain)
        next
          case None
          with assms m Inr JStr l1 l2 n1
          have "r = loadFile opts e (path_resolve (cwd e) [d, index opts]) 0 st2"
            by (simp add: manifest_resolution_def)
          with o3 r1 r2 show ?thesis by (auto intro: resolver_op_chain)
        qed
      qed
    qed (use assms m Inr in \<open>simp_all add: manifest_resolution_def\<close>)
  qed
qed

lemma directory_resolution_op:
  assumes "directory_resolution opts e d ms st = Inr r"
  shows "resolver_op e st r"
proof -
  obtain missed found where fm:
    "first_manifest e (map (\<lambda>m. path_resolve (cwd e) [d, m]) ms) = (missed, found)"
    by (cases "first_manifest e (map (\<lambda>m. path_resolve (cwd e) [d, m]) ms)")
  show ?thesis
  proof (cases found)
    case None
    with assms fm have "r = loadFile opts e (path_resolve (cwd e) [d, index opts]) 0 (logged st missed)"
      by (simp add: directory_resolution_def)
    then show ?thesis
      using loadFile_op[of e "logged st missed" opts "path_resolve (cwd e) [d, index opts]" 0]
      by (auto intro: resolver_op_chain[OF resolver_run_logged])
  next
    case (Some pd)
    obtain pp data where "pd = (pp, data)" by (cases pd)
    with Some assms fm
    have "manifest_resolution opts e d pp data (logged st (missed @ [pp])) = Inr r"
      by (simp add: directory_resolution_def)
    from manifest_resolution_op[OF this] show ?thesis
      by (auto intro: resolver_op_chain[OF resolver_run_logged])
  qed
qed

lemma loadDirectory_op: "loadDirectory opts e d i st = Inr r \<Longrightarrow> resolver_op e st r"
  by (simp add: loadDirectory_directory_resolution directory_resolution_op)

lemma resolveRelative_op:
  assumes "resolveRelative opts e m st = Inr r"
  shows "resolver_op e st r"
proof -
  obtain e1 f1 st1 where l1: "loadFile opts e m 0 st = ((e1, f1), st1)"
    by (cases "loadFile opts e m 0 st") auto
  have o1: "resolver_op e st ((e1, f1), st1)" using loadFile_op[of e st opts m 0] l1 by simp
  show ?thesis
  proof (cases f1)
    case None
    with assms l1 have "loadDirectory opts e m 0 st1 = Inr r" by (simp add: resolveRelative_def)
    from loadDirectory_op[OF this] have o2: "resolver_op e st1 r" .
    have "resolver_run e st st1" using o1 by (simp add: resolver_op_def)
    then show ?thesis using o2 by (rule resolver_op_chain)
  next
    case (Some a)
    with assms l1 have "r = ((None, Some a), st1)" by (simp add: resolveRelative_def)
    with o1 Some show ?thesis by (auto intro: resolver_op_hit)
  qed
qed

lemma first_resolved_op:
  "first_resolved opts e cs st = Inr r \<Longrightarrow> resolver_op e st r"
proof (induction cs arbitrary: st)
  case Nil
  then show ?case by (auto simp: resolver_op_miss)
next
  case (Cons c cs)
  show ?case
  proof (cases "resolveRelative opts e c st")
    case (Inl x)
    with Cons.prems show ?thesis by simp
  next
    case (Inr r1)
    obtain e1 f1 st1 where r1: "r1 = ((e1, f1), st1)" by (cases r1) auto
    have o1: "resolver_op e st ((e1, f1), st1)" using resolveRelative_op[OF Inr] r1 by simp
    show ?thesis
    proof (cases f1)
      case None
      with Cons.prems Inr r1 have "first_resolved opts e cs st1 = Inr r" by simp
      from Cons.IH[OF this] have o2: "resolver_op e st1 r" .
      have "resolver_run e st st1" using o1 by (simp add: resolver_op_def)
      then show ?thesis using o2 by (rule resolver_op_chain)
    next
      case (Some a)
      with Cons.prems Inr r1 have "r = ((None, Some a), st1)" by simp
      with o1 Some show ?thesis by (auto intro: resolver_op_hit)
    qed
  qed
qed

lemma resolve_op:
  assumes "resolve opts e m base st = Inr r"
  shows "resolver_op e st r"
proof (cases "RELATIVE_PATH m")
  case True
  with assms show ?thesis
    by (auto simp: resolve_def Let_def intro: resolveRelative_op split: if_splits)
next
  case False
  with assms have "resolveModule opts e (case base of None \<Rightarrow> cwd e | Some b \<Rightarrow> b) m 0 st = Inr r"
    by (auto simp: resolve_def Let_def split: if_splits)
  then show ?thesis
    by (auto simp: resolveModule_first_resolved intro: first_resolved_op split: if_splits)
qed

subsection \<open>The grapher keeps the invariants\<close>

lemma Dependencies_analyze_Suc:
  "Dependencies_analyze (Suc fuel) opts e file st =
     (case analyze_step e file st of
        Stop c \<Rightarrow> c
      | Scan f requirements st' \<Rightarrow> resolveRequirements fuel opts e f requirements 0 st')"
  by (auto simp: analyze_step_def valid_file_def assign_dependencies_def Let_def
      split: option.splits sum.splits)

lemma steady_refl: "steady st st"
  by (simp add: steady_def)

lemma steady_trans: "steady a b \<Longrightarrow> steady b c \<Longrightarrow> steady a c"
  unfolding steady_def by (metis (no_types, lifting) le_trans less_le_trans)

lemma basic_run_refl: "basic_run e st st"
  by (simp add: basic_run_def steady_refl)

lemma basic_run_trans: "basic_run e a b \<Longrightarrow> basic_run e b c \<Longrightarrow> basic_run e a c"
  unfolding basic_run_def by (meson steady_trans le_trans)

lemma grapher_run_refl: "grapher_run e st st"
  by (simp add: grapher_run_def basic_run_refl)

lemma grapher_run_trans: "grapher_run e a b \<Longrightarrow> grapher_run e b c \<Longrightarrow> grapher_run e a c"
  unfolding grapher_run_def by (meson basic_run_trans)

lemma steady_valid: "steady st st' \<Longrightarrow> valid_file st f \<Longrightarrow> valid_file st' f"
  by (auto simp: steady_def valid_file_def)

lemma steady_cached: "steady st st' \<Longrightarrow> cached_file st f \<Longrightarrow> cached_file st' f"
  by (auto simp: steady_def valid_file_def cached_file_def)

lemma graph_closed_steady:
  assumes s: "steady st st'"
    and h: "\<forall>f \<in> set (heap st'). \<forall>ds. dependencies f = Some ds \<longrightarrow>
         (\<forall>d \<in> set ds. \<forall>r. dep_file d = Some r \<longrightarrow> cached_file st r \<or> cached_file st' r)"
    and c: "\<forall>dir tbl p err r. (dir, tbl) \<in> set (dcache st') \<longrightarrow> (p, (err, Some r)) \<in> set tbl \<longrightarrow>
         cached_file st r \<or> cached_file st' r"
  shows "graph_closed st'"
  unfolding graph_closed_def
  using h c steady_cached[OF s] by fast

lemma resolver_run_grapher_run:
  assumes "resolver_run e st st'"
  shows "grapher_run e st st'"
proof -
  from assms obtain news where hp: "heap st' = heap st @ news"
    and nw: "\<forall>f \<in> set news. dependencies f = None \<and> contents f \<noteq> None"
    and dc: "dcache st' = dcache st"
    and rc: "\<forall>p r. map_of (rcache st) p = Some r \<longrightarrow> map_of (rcache st') p = Some r"
    and wf: "wf_cache st \<longrightarrow> wf_cache st'"
    and pd: "pending e st' \<le> pending e st"
    unfolding resolver_run_def by blast
  have s: "steady st st'" using hp rc by (auto simp: steady_def nth_append)
  have g: "graph_closed st'" if "graph_closed st"
  proof (rule graph_closed_steady[OF s])
    show "\<forall>f \<in> set (heap st'). \<forall>ds. dependencies f = Some ds \<longrightarrow>
         (\<forall>d \<in> set ds. \<forall>r. dep_file d = Some r \<longrightarrow> cached_file st r \<or> cached_file st' r)"
      using that nw unfolding graph_closed_def hp by auto
    show "\<forall>dir tbl p err r. (dir, tbl) \<in> set (dcache st') \<longrightarrow> (p, (err, Some r)) \<in> set tbl \<longrightarrow>
         cached_file st r \<or> cached_file st' r"
      using that unfolding graph_closed_def dc by blast
  qed
  have d: "dynamic_ok st'" if "dynamic_ok st"
    using that nw unfolding dynamic_ok_def hp by auto
  show ?thesis unfolding grapher_run_def basic_run_def graph_ok_def using s wf g d pd by blast
qed

lemma set_AList_update: "set (AList.update k v al) \<subseteq> insert (k, v) (set al)"
  by (induction al) auto

lemma filter_update_le:
  "\<not> P v \<Longrightarrow> length (filter P (xs[i := v])) \<le> length (filter P xs)"
proof (induction xs arbitrary: i)
  case Nil then show ?case by simp
next
  case (Cons x xs)
  then show ?case by (cases i) (auto simp: le_SucI)
qed

lemma filter_update_less:
  "\<not> P v \<Longrightarrow> i < length xs \<Longrightarrow> P (xs ! i) \<Longrightarrow>
   length (filter P (xs[i := v])) < length (filter P xs)"
proof (induction xs arbitrary: i)
  case Nil then show ?case by simp
next
  case (Cons x xs)
  show ?case
  proof (cases i)
    case 0
    with Cons.prems show ?thesis by simp
  next
    case (Suc j)
    with Cons.prems Cons.IH[of j] show ?thesis by auto
  qed
qed

lemma wf_cache_heap_update:
  assumes "wf_cache st" "rcache st' = rcache st" "steady st st'"
  shows "wf_cache st'"
  using assms unfolding wf_cache_def
  by (auto simp: steady_def valid_file_def split: prod.splits)

lemma heap_update_steady:
  assumes f: "f < length (heap st)"
    and g: "vpath g = vpath (heap st ! f)" "contents g = contents (heap st ! f)"
           "dependencies g = Some ds"
  shows "steady st (st\<lparr>heap := (heap st)[f := g]\<rparr>)"
  using f g by (auto simp: steady_def nth_list_update)

lemma heap_update_basic:
  assumes f: "f < length (heap st)"
    and g: "vpath g = vpath (heap st ! f)" "contents g = contents (heap st ! f)"
           "dependencies g = Some ds"
    and dyn: "dynamic_ok st \<longrightarrow>
                 (\<forall>d \<in> set ds. \<not> static d \<longrightarrow>
                    dep_file d = None \<and> error d = Some ''Unable to resolve dynamic dependency'')"
  shows "basic_run e st (st\<lparr>heap := (heap st)[f := g]\<rparr>)"
proof -
  let ?st' = "st\<lparr>heap := (heap st)[f := g]\<rparr>"
  have s: "steady st ?st'" by (rule heap_update_steady[OF f g])
  have sub: "set (heap ?st') \<subseteq> insert g (set (heap st))"
    by (simp add: set_update_subset_insert)
  have dy: "dynamic_ok ?st'" if d: "dynamic_ok st"
    unfolding dynamic_ok_def
  proof (intro ballI allI impI)
    fix h ds' d'
    assume h: "h \<in> set (heap ?st')" and hd: "dependencies h = Some ds'" and dd: "d' \<in> set ds'"
      and ns: "\<not> static d'"
    from h sub have "h = g \<or> h \<in> set (heap st)" by auto
    then show "dep_file d' = None \<and> error d' = Some ''Unable to resolve dynamic dependency''"
    proof
      assume "h = g"
      with dyn d g(3) hd dd ns show ?thesis by auto
    next
      assume "h \<in> set (heap st)"
      with d hd dd ns show ?thesis unfolding dynamic_ok_def by blast
    qed
  qed
  have "unanalysed ?st' \<le> unanalysed st"
    unfolding unanalysed_def using g(3) by (simp add: filter_update_le)
  then have pd: "pending e ?st' \<le> pending e st"
    by (simp add: pending_def uncached_def)
  have wf: "wf_cache ?st'" if "wf_cache st"
    by (rule wf_cache_heap_update[OF that _ s]) simp
  show ?thesis unfolding basic_run_def using s dy pd wf by blast
qed

lemma heap_update_ok:
  assumes f: "f < length (heap st)"
    and g: "vpath g = vpath (heap st ! f)" "contents g = contents (heap st ! f)"
           "dependencies g = Some ds"
    and ok: "graph_ok st"
    and closed: "\<forall>d \<in> set ds. \<forall>r. dep_file d = Some r \<longrightarrow> cached_file st r"
  shows "graph_ok (st\<lparr>heap := (heap st)[f := g]\<rparr>)"
proof -
  let ?st' = "st\<lparr>heap := (heap st)[f := g]\<rparr>"
  have s: "steady st ?st'" by (rule heap_update_steady[OF f g])
  have w: "wf_cache st" and c: "graph_closed st" using ok by (simp_all add: graph_ok_def)
  have wf: "wf_cache ?st'" by (rule wf_cache_heap_update[OF w _ s]) simp
  have sub: "set (heap ?st') \<subseteq> insert g (set (heap st))"
    by (simp add: set_update_subset_insert)
  have gc: "graph_closed ?st'"
  proof (rule graph_closed_steady[OF s])
    show "\<forall>f \<in> set (heap ?st'). \<forall>ds. dependencies f = Some ds \<longrightarrow>
         (\<forall>d \<in> set ds. \<forall>r. dep_file d = Some r \<longrightarrow> cached_file st r \<or> cached_file ?st' r)"
    proof (intro ballI allI impI)
      fix h ds' d r
      assume h: "h \<in> set (heap ?st')" and hd: "dependencies h = Some ds'" and dd: "d \<in> set ds'"
        and df: "dep_file d = Some r"
      with sub have "h = g \<or> h \<in> set (heap st)" by auto
      then show "cached_file st r \<or> cached_file ?st' r"
      proof
        assume "h = g"
        with closed g(3) hd dd df show ?thesis by auto
      next
        assume "h \<in> set (heap st)"
        with c hd dd df show ?thesis unfolding graph_closed_def by blast
      qed
    qed
    show "\<forall>dir tbl p err r. (dir, tbl) \<in> set (dcache ?st') \<longrightarrow> (p, (err, Some r)) \<in> set tbl \<longrightarrow>
         cached_file st r \<or> cached_file ?st' r"
      using c unfolding graph_closed_def by auto
  qed
  show ?thesis using wf gc by (simp add: graph_ok_def)
qed

lemma push_dependency_cases:
  assumes "push_dependency file d st = Inr st'"
  obtains ds where "file < length (heap st)" "dependencies (heap st ! file) = Some ds"
    "st' = st\<lparr>heap := (heap st)[file := (heap st ! file)\<lparr>dependencies := Some (ds @ [d])\<rparr>]\<rparr>"
  using assms by (auto simp: push_dependency_def split: if_splits option.splits)

lemma push_dependency_basic:
  assumes p: "push_dependency file d st = Inr st'"
    and dyn: "\<not> static d \<longrightarrow>
                dep_file d = None \<and> error d = Some ''Unable to resolve dynamic dependency''"
  shows "basic_run e st st'"
proof -
  from p obtain ds where f: "file < length (heap st)"
    and ds: "dependencies (heap st ! file) = Some ds"
    and st': "st' = st\<lparr>heap := (heap st)[file := (heap st ! file)\<lparr>dependencies := Some (ds @ [d])\<rparr>]\<rparr>"
    by (rule push_dependency_cases)
  have mem: "heap st ! file \<in> set (heap st)" using f by simp
  show ?thesis
    unfolding st'
  proof (rule heap_update_basic[OF f, where ds="ds @ [d]"])
    show "dynamic_ok st \<longrightarrow> (\<forall>x \<in> set (ds @ [d]). \<not> static x \<longrightarrow>
          dep_file x = None \<and> error x = Some ''Unable to resolve dynamic dependency'')"
      using dyn ds mem unfolding dynamic_ok_def by auto
  qed simp_all
qed

lemma push_dependency_ok:
  assumes p: "push_dependency file d st = Inr st'"
    and ok: "graph_ok st"
    and closed: "\<forall>r. dep_file d = Some r \<longrightarrow> cached_file st r"
  shows "graph_ok st'"
proof -
  from p obtain ds where f: "file < length (heap st)"
    and ds: "dependencies (heap st ! file) = Some ds"
    and st': "st' = st\<lparr>heap := (heap st)[file := (heap st ! file)\<lparr>dependencies := Some (ds @ [d])\<rparr>]\<rparr>"
    by (rule push_dependency_cases)
  have mem: "heap st ! file \<in> set (heap st)" using f by simp
  show ?thesis
    unfolding st'
  proof (rule heap_update_ok[OF f, where ds="ds @ [d]"])
    show "\<forall>x \<in> set (ds @ [d]). \<forall>r. dep_file x = Some r \<longrightarrow> cached_file st r"
      using closed ds mem ok unfolding graph_closed_def graph_ok_def by auto
  qed (simp_all add: ok)
qed

lemma assign_dependencies_run:
  assumes "f < length (heap st)"
  shows "grapher_run e st (assign_dependencies f st)"
  unfolding assign_dependencies_def grapher_run_def
proof (intro conjI impI)
  show "basic_run e st (st\<lparr>heap := (heap st)[f := (heap st ! f)\<lparr>dependencies := Some []\<rparr>]\<rparr>)"
    by (rule heap_update_basic[OF assms, where ds="[]"]) simp_all
  show "graph_ok (st\<lparr>heap := (heap st)[f := (heap st ! f)\<lparr>dependencies := Some []\<rparr>]\<rparr>)"
    if "graph_ok st"
    by (rule heap_update_ok[OF assms, where ds="[]"]) (simp_all add: that)
qed

lemma assign_dependencies_pending:
  assumes "f < length (heap st)" "dependencies (heap st ! f) = None"
  shows "pending e (assign_dependencies f st) < pending e st"
proof -
  have "unanalysed (assign_dependencies f st) < unanalysed st"
    unfolding unanalysed_def assign_dependencies_def using assms
    by (simp add: filter_update_less)
  then show ?thesis by (simp add: pending_def uncached_def assign_dependencies_def)
qed

lemma cache_outcome_simps:
  "heap (cache_outcome dir p out st) = heap st" "rcache (cache_outcome dir p out st) = rcache st"
  by (simp_all add: cache_outcome_def)

lemma cache_outcome_basic: "basic_run e st (cache_outcome dir p out st)"
  by (simp add: basic_run_def steady_def dynamic_ok_def pending_def unanalysed_def uncached_def
      cache_outcome_simps wf_cache_def valid_file_def)

lemma cache_outcome_ok:
  assumes ok: "graph_ok st"
    and closed: "\<forall>r. snd out = Some r \<longrightarrow> cached_file st r"
  shows "graph_ok (cache_outcome dir p out st)"
proof -
  let ?st' = "cache_outcome dir p out st"
  let ?old = "case map_of (dcache st) dir of None \<Rightarrow> [] | Some c \<Rightarrow> c"
  have hp: "heap ?st' = heap st" and rc: "rcache ?st' = rcache st"
    and dc: "dcache ?st' = AList.update dir (AList.update p out ?old) (dcache st)"
    by (simp_all add: cache_outcome_def)
  have w: "wf_cache st" and c: "graph_closed st" using ok by (simp_all add: graph_ok_def)
  have cf: "\<And>r. cached_file ?st' r = cached_file st r"
    by (simp add: cached_file_def valid_file_def hp rc)
  have wf: "wf_cache ?st'" using w by (simp add: wf_cache_def valid_file_def hp rc)
  have old: "cached_file st r" if m: "(q, (e', Some r)) \<in> set ?old" for q e' r
  proof (cases "map_of (dcache st) dir")
    case None with m show ?thesis by simp
  next
    case (Some tbl)
    then have "(dir, tbl) \<in> set (dcache st)" by (rule map_of_SomeD)
    with c Some m show ?thesis unfolding graph_closed_def by auto
  qed
  have gc: "graph_closed ?st'"
    unfolding graph_closed_def
  proof (intro conjI)
    show "\<forall>f \<in> set (heap ?st'). \<forall>ds. dependencies f = Some ds \<longrightarrow>
         (\<forall>d \<in> set ds. \<forall>r. dep_file d = Some r \<longrightarrow> cached_file ?st' r)"
      using c unfolding graph_closed_def cf hp by blast
    show "\<forall>d tbl q e' r. (d, tbl) \<in> set (dcache ?st') \<longrightarrow> (q, (e', Some r)) \<in> set tbl \<longrightarrow>
         cached_file ?st' r"
    proof (intro allI impI)
      fix d tbl q e' r
      assume m: "(d, tbl) \<in> set (dcache ?st')" and q: "(q, (e', Some r)) \<in> set tbl"
      from m dc set_AList_update[of dir "AList.update p out ?old" "dcache st"]
      have "(d, tbl) = (dir, AList.update p out ?old) \<or> (d, tbl) \<in> set (dcache st)" by auto
      then show "cached_file ?st' r"
      proof
        assume "(d, tbl) = (dir, AList.update p out ?old)"
        with q set_AList_update[of p out ?old]
        have "(q, (e', Some r)) = (p, out) \<or> (q, (e', Some r)) \<in> set ?old" by auto
        then show ?thesis
        proof
          assume "(q, (e', Some r)) = (p, out)"
          with closed show ?thesis by (auto simp: cf)
        next
          assume "(q, (e', Some r)) \<in> set ?old"
          with old show ?thesis by (auto simp: cf)
        qed
      next
        assume "(d, tbl) \<in> set (dcache st)"
        with c q show ?thesis unfolding graph_closed_def cf by blast
      qed
    qed
  qed
  show ?thesis using wf gc by (simp add: graph_ok_def)
qed

lemma pushed_step_Continue:
  "pushed_step r = s \<Longrightarrow> s = Continue st' \<or> s = Descend d st' \<Longrightarrow> r = Inr st' \<and> s = Continue st'"
  by (cases r) (auto simp: pushed_step_def)

lemma requirement_step_Finish:
  assumes "requirement_step opts e file reqs idx st = Finish c"
  shows "c = Called () st \<or> (\<exists>err. c = Thrown err)"
  using assms
  by (auto simp: requirement_step_def pushed_step_def split: if_splits option.splits sum.splits prod.splits)

lemma resolve_grapher_run:
  assumes "resolve opts e m base st = Inr (out, st1)"
  shows "grapher_run e st st1" and "wf_cache st \<Longrightarrow> snd out = Some f \<Longrightarrow> cached_file st1 f"
  using resolve_op[OF assms] by (auto simp: resolver_op_def intro: resolver_run_grapher_run)

lemma dependency_of_simps [simp]:
  "static (dependency_of r f err) = static r" "dep_file (dependency_of r f err) = f"
  "error (dependency_of r f err) = err" "path (dependency_of r f err) = path r"
  "references (dependency_of r f err) = references r"
  by (simp_all add: dependency_of_def)

lemma requirement_step_run:
  assumes "requirement_step opts e file reqs idx st = s"
    and "s = Continue st' \<or> s = Descend d st'"
  shows "grapher_run e st st' \<and> (s = Descend d st' \<longrightarrow> wf_cache st \<longrightarrow> cached_file st' d)"
proof -
  from assms have ok: "length reqs \<noteq> idx" "\<not> (length reqs < idx \<or> length (heap st) \<le> file)"
    by (auto simp: requirement_step_def split: if_splits)
  let ?req = "reqs ! idx"
  let ?dir = "dirname (vpath (heap st ! file))"
  show ?thesis
  proof (cases "static ?req")
    case False
    with assms ok have ps: "pushed_step (push_dependency file
          (dependency_of ?req None (Some ''Unable to resolve dynamic dependency'')) st) = s"
      by (simp add: requirement_step_def)
    from pushed_step_Continue[OF ps assms(2)] have p: "push_dependency file
          (dependency_of ?req None (Some ''Unable to resolve dynamic dependency'')) st = Inr st'"
      and s: "s = Continue st'"
      by simp_all
    have "basic_run e st st'" by (rule push_dependency_basic[OF p]) simp
    moreover have "graph_ok st'" if "graph_ok st"
      by (rule push_dependency_ok[OF p that]) simp
    ultimately show ?thesis using s by (simp add: grapher_run_def)
  next
    case True
    note stc = this
    show ?thesis
    proof (cases "Option.bind (map_of (dcache st) ?dir) (\<lambda>cached. map_of cached (path ?req))")
      case (Some cacheResult)
      with assms ok stc have ps: "pushed_step (push_dependency file
               (dependency_of ?req (snd cacheResult) (fst cacheResult)) st) = s"
        by (simp add: requirement_step_def)
      from pushed_step_Continue[OF ps assms(2)] have p: "push_dependency file
               (dependency_of ?req (snd cacheResult) (fst cacheResult)) st = Inr st'"
        and s: "s = Continue st'"
        by simp_all
      from Some obtain tbl where t: "map_of (dcache st) ?dir = Some tbl"
        and c: "map_of tbl (path ?req) = Some cacheResult"
        by (auto simp: bind_eq_Some_conv)
      have m: "(?dir, tbl) \<in> set (dcache st)" "(path ?req, cacheResult) \<in> set tbl"
        using t c by (auto dest: map_of_SomeD)
      have "basic_run e st st'" by (rule push_dependency_basic[OF p]) (simp add: stc)
      moreover have "graph_ok st'" if g: "graph_ok st"
      proof (rule push_dependency_ok[OF p g])
        show "\<forall>r. dep_file (dependency_of ?req (snd cacheResult) (fst cacheResult)) = Some r \<longrightarrow>
            cached_file st r"
          using g m unfolding graph_ok_def graph_closed_def
          by (cases cacheResult) auto
      qed
      ultimately show ?thesis using s by (simp add: grapher_run_def)
    next
      case None
      note miss = this
      show ?thesis
      proof (cases "resolve opts e (path ?req) (Some ?dir) st")
        case (Inl err)
        with assms ok stc miss show ?thesis by (auto simp: requirement_step_def)
      next
        case (Inr r)
        obtain out st1 where r: "r = (out, st1)" by (cases r)
        let ?st2 = "cache_outcome ?dir (path ?req) (located out) st1"
        let ?dep = "dependency_of ?req (snd (located out)) (fst (located out))"
        from assms ok stc miss Inr r
        have c: "(case push_dependency file ?dep ?st2 of
                     Inl err \<Rightarrow> Finish (Thrown err)
                   | Inr st'' \<Rightarrow>
                       (case snd out of Some d \<Rightarrow> Descend d st'' | None \<Rightarrow> Continue st'')) = s"
          by (simp add: requirement_step_def)
        with assms(2) have p: "push_dependency file ?dep ?st2 = Inr st'"
          and sd: "s = (case snd out of Some d \<Rightarrow> Descend d st' | None \<Rightarrow> Continue st')"
          by (auto split: sum.splits option.splits)
        have so: "snd (located out) = snd out" by (simp add: located_def)
        have g1: "grapher_run e st st1" and cf1: "\<And>f. wf_cache st \<Longrightarrow> snd out = Some f \<Longrightarrow> cached_file st1 f"
          using resolve_grapher_run[OF Inr[unfolded r]] by blast+
        have b2: "basic_run e st1 ?st2" by (rule cache_outcome_basic)
        have b3: "basic_run e ?st2 st'" by (rule push_dependency_basic[OF p]) (simp add: stc)
        have b: "basic_run e st st'"
          using g1 b2 b3 by (meson basic_run_trans grapher_run_def)
        have cf2: "cached_file ?st2 f = cached_file st1 f" for f
          by (simp add: cached_file_def valid_file_def cache_outcome_simps)
        have gk: "graph_ok st'" if g: "graph_ok st"
        proof -
          have w: "wf_cache st" using g by (simp add: graph_ok_def)
          have k1: "graph_ok st1" using g1 g by (simp add: grapher_run_def)
          have k2: "graph_ok ?st2"
            by (rule cache_outcome_ok[OF k1]) (use cf1[OF w] so in auto)
          show ?thesis
            by (rule push_dependency_ok[OF p k2]) (use cf1[OF w] so cf2 in auto)
        qed
        have desc: "cached_file st' d" if "s = Descend d st'" and w: "wf_cache st"
        proof -
          from that sd have "snd out = Some d" by (auto split: option.splits)
          from cf1[OF w this] have "cached_file ?st2 d" by (simp add: cf2)
          moreover have "steady ?st2 st'" using b3 by (simp add: basic_run_def)
          ultimately show ?thesis by (rule steady_cached[rotated])
        qed
        show ?thesis using b gk desc by (auto simp: grapher_run_def)
      qed
    qed
  qed
qed

lemma analyze_step_Stop:
  assumes "analyze_step e file st = Stop c"
  shows "c = Called () st \<or> c = Dropped st \<or> (\<exists>err. c = Thrown err)"
  using assms by (auto simp: analyze_step_def split: option.splits if_splits sum.splits)

lemma analyze_step_Dropped:
  "analyze_step e (Some f) st = Stop (Dropped st') \<Longrightarrow> \<not> valid_file st f"
  by (auto simp: analyze_step_def split: option.splits if_splits sum.splits)

lemma analyze_step_Called:
  "analyze_step e file st = Stop (Called u st') \<Longrightarrow>
   st' = st \<and> (\<exists>f. file = Some f \<and> valid_file st f \<and> dependencies (heap st ! f) \<noteq> None)"
  by (auto simp: analyze_step_def split: option.splits if_splits sum.splits)

lemma analyze_step_Scan:
  assumes "analyze_step e file st = Scan f reqs st'"
  shows "file = Some f" "valid_file st f" "dependencies (heap st ! f) = None"
    "st' = assign_dependencies f st" "grapher_run e st st'" "pending e st' < pending e st"
    "dependencies (heap st' ! f) \<noteq> None"
proof -
  from assms show a: "file = Some f" "valid_file st f" "dependencies (heap st ! f) = None"
    "st' = assign_dependencies f st"
    by (auto simp: analyze_step_def split: option.splits if_splits sum.splits)
  then have f: "f < length (heap st)" by (simp add: valid_file_def)
  show "grapher_run e st st'" unfolding a(4) by (rule assign_dependencies_run[OF f])
  show "pending e st' < pending e st" unfolding a(4)
    by (rule assign_dependencies_pending[OF f a(3)])
  show "dependencies (heap st' ! f) \<noteq> None"
    using f by (simp add: a(4) assign_dependencies_def)
qed

subsection \<open>Fuel\<close>

text \<open>More fuel does not change the result of a call that has ended.\<close>

declare resolveRequirements.simps(2) [simp del] Dependencies_analyze.simps(2) [simp del]

lemma requirement_step_bound:
  "requirement_step opts e fl reqs idx st = Continue st' \<or>
   requirement_step opts e fl reqs idx st = Descend d st' \<Longrightarrow> idx < length reqs"
  by (auto simp: requirement_step_def split: if_splits)

lemma grapher_lifting:
  "(\<forall>fl reqs idx st st'.
      resolveRequirements n opts e fl reqs idx st = Called () st' \<longrightarrow> grapher_run e st st') \<and>
   (\<forall>fl st st'.
      Dependencies_analyze n opts e fl st = Called () st' \<longrightarrow>
        grapher_run e st st' \<and>
        (\<exists>f. fl = Some f \<and> valid_file st' f \<and> dependencies (heap st' ! f) \<noteq> None))"
proof (induction n)
  case 0
  show ?case by simp
next
  case (Suc n)
  have R: "grapher_run e st st'"
    if r: "resolveRequirements (Suc n) opts e fl reqs idx st = Called () st'"
    for fl reqs idx st st'
  proof (cases "requirement_step opts e fl reqs idx st")
    case (Finish c)
    with r have "c = Called () st'" by (simp add: resolveRequirements_Suc)
    with requirement_step_Finish[OF Finish] show ?thesis by (auto simp: grapher_run_refl)
  next
    case (Continue st1)
    with r have "resolveRequirements n opts e fl reqs (idx + 1) st1 = Called () st'"
      by (simp add: resolveRequirements_Suc)
    with Suc have "grapher_run e st1 st'" by blast
    moreover have "grapher_run e st st1"
      using requirement_step_run[OF Continue, of st1] by simp
    ultimately show ?thesis by (meson grapher_run_trans)
  next
    case (Descend d st1)
    have g1: "grapher_run e st st1"
      using requirement_step_run[OF Descend, of st1 d] by simp
    from r Descend obtain u st2 where a: "Dependencies_analyze n opts e (Some d) st1 = Called u st2"
      and c: "resolveRequirements n opts e fl reqs (idx + 1) st2 = Called () st'"
      by (auto simp: resolveRequirements_Suc split: completion.splits)
    from a Suc have "grapher_run e st1 st2" by (cases u) blast
    moreover from c Suc have "grapher_run e st2 st'" by blast
    ultimately show ?thesis using g1 by (meson grapher_run_trans)
  qed
  have A: "grapher_run e st st' \<and>
        (\<exists>f. fl = Some f \<and> valid_file st' f \<and> dependencies (heap st' ! f) \<noteq> None)"
    if a: "Dependencies_analyze (Suc n) opts e fl st = Called () st'" for fl st st'
  proof (cases "analyze_step e fl st")
    case (Stop c)
    with a have "c = Called () st'" by (simp add: Dependencies_analyze_Suc)
    with analyze_step_Called[of e fl st "()" st'] Stop show ?thesis
      by (auto simp: grapher_run_refl)
  next
    case (Scan f reqs st1)
    note s = analyze_step_Scan[OF Scan]
    from a Scan have "resolveRequirements n opts e f reqs 0 st1 = Called () st'"
      by (simp add: Dependencies_analyze_Suc)
    with Suc have g2: "grapher_run e st1 st'" by blast
    have g: "grapher_run e st st'" using s(5) g2 by (meson grapher_run_trans)
    have sd: "steady st1 st'" using g2 by (simp add: grapher_run_def basic_run_def)
    have f1: "f < length (heap st1)" using s(2,4) by (simp add: valid_file_def assign_dependencies_def)
    have "valid_file st' f" using g s(2) by (auto simp: grapher_run_def basic_run_def intro: steady_valid)
    moreover have "dependencies (heap st' ! f) \<noteq> None"
      using sd f1 s(7) by (auto simp: steady_def)
    ultimately show ?thesis using g s(1) by simp
  qed
  show ?case using R A by blast
qed

lemma fuel_Suc:
  "(\<forall>fl reqs idx st.
      resolveRequirements n opts e fl reqs idx st \<noteq> Timeout \<longrightarrow>
      resolveRequirements (Suc n) opts e fl reqs idx st =
        resolveRequirements n opts e fl reqs idx st) \<and>
   (\<forall>fl st.
      Dependencies_analyze n opts e fl st \<noteq> Timeout \<longrightarrow>
      Dependencies_analyze (Suc n) opts e fl st = Dependencies_analyze n opts e fl st)"
proof (induction n)
  case 0
  show ?case by simp
next
  case (Suc n)
  have R: "resolveRequirements (Suc (Suc n)) opts e fl reqs idx st =
        resolveRequirements (Suc n) opts e fl reqs idx st"
    if r: "resolveRequirements (Suc n) opts e fl reqs idx st \<noteq> Timeout"
    for fl reqs idx st
  proof (cases "requirement_step opts e fl reqs idx st")
    case (Finish c)
    then show ?thesis by (simp add: resolveRequirements_Suc)
  next
    case (Continue st1)
    with r have "resolveRequirements n opts e fl reqs (idx + 1) st1 \<noteq> Timeout"
      by (simp add: resolveRequirements_Suc)
    with Suc have "resolveRequirements (Suc n) opts e fl reqs (idx + 1) st1 =
        resolveRequirements n opts e fl reqs (idx + 1) st1" by blast
    with Continue show ?thesis by (simp add: resolveRequirements_Suc[of "Suc n"] resolveRequirements_Suc[of n])
  next
    case (Descend d st1)
    from r Descend have a: "Dependencies_analyze n opts e (Some d) st1 \<noteq> Timeout"
      by (auto simp: resolveRequirements_Suc[of n] split: completion.splits)
    with Suc have a': "Dependencies_analyze (Suc n) opts e (Some d) st1 =
        Dependencies_analyze n opts e (Some d) st1" by blast
    show ?thesis
    proof (cases "Dependencies_analyze n opts e (Some d) st1")
      case (Called u st2)
      with r Descend have "resolveRequirements n opts e fl reqs (idx + 1) st2 \<noteq> Timeout"
        by (simp add: resolveRequirements_Suc[of n])
      with Suc have "resolveRequirements (Suc n) opts e fl reqs (idx + 1) st2 =
        resolveRequirements n opts e fl reqs (idx + 1) st2" by blast
      with Descend Called a' show ?thesis
        by (simp add: resolveRequirements_Suc[of "Suc n"] resolveRequirements_Suc[of n])
    qed (use Descend a a' in \<open>simp_all add: resolveRequirements_Suc[of "Suc n"] resolveRequirements_Suc[of n]\<close>)
  qed
  have A: "Dependencies_analyze (Suc (Suc n)) opts e fl st =
        Dependencies_analyze (Suc n) opts e fl st"
    if a: "Dependencies_analyze (Suc n) opts e fl st \<noteq> Timeout" for fl st
  proof (cases "analyze_step e fl st")
    case (Stop c)
    then show ?thesis by (simp add: Dependencies_analyze_Suc)
  next
    case (Scan f reqs st1)
    with a have "resolveRequirements n opts e f reqs 0 st1 \<noteq> Timeout"
      by (simp add: Dependencies_analyze_Suc)
    with Suc have "resolveRequirements (Suc n) opts e f reqs 0 st1 =
        resolveRequirements n opts e f reqs 0 st1" by blast
    with Scan show ?thesis
      by (simp add: Dependencies_analyze_Suc[of "Suc n"] Dependencies_analyze_Suc[of n])
  qed
  show ?case using R A by blast
qed

lemma fuel_mono_R:
  "resolveRequirements n opts e fl reqs idx st \<noteq> Timeout \<Longrightarrow>
   resolveRequirements (n + k) opts e fl reqs idx st =
     resolveRequirements n opts e fl reqs idx st"
proof (induction k)
  case 0 show ?case by simp
next
  case (Suc k)
  then show ?case using fuel_Suc[of "n + k" opts e] by simp
qed

lemma fuel_mono_A:
  "Dependencies_analyze n opts e fl st \<noteq> Timeout \<Longrightarrow>
   Dependencies_analyze (n + k) opts e fl st = Dependencies_analyze n opts e fl st"
proof (induction k)
  case 0 show ?case by simp
next
  case (Suc k)
  then show ?case using fuel_Suc[of "n + k" opts e] by simp
qed

subsection \<open>Termination\<close>

text \<open>
  Every call ends: a call of \<open>analyze\<close> that does not return at once assigns a dependency
  list and so decreases the measure, which no step increases; a call of
  \<open>resolveRequirements\<close> advances through its list of requirements.
\<close>

lemma fuel_le_R:
  "resolveRequirements n opts e fl reqs idx st \<noteq> Timeout \<Longrightarrow> n \<le> n' \<Longrightarrow>
   resolveRequirements n' opts e fl reqs idx st = resolveRequirements n opts e fl reqs idx st"
  using fuel_mono_R[of n opts e fl reqs idx st "n' - n"] by simp

lemma fuel_le_A:
  "Dependencies_analyze n opts e fl st \<noteq> Timeout \<Longrightarrow> n \<le> n' \<Longrightarrow>
   Dependencies_analyze n' opts e fl st = Dependencies_analyze n opts e fl st"
  using fuel_mono_A[of n opts e fl st "n' - n"] by simp

lemma grapher_run_pending: "grapher_run e st st' \<Longrightarrow> pending e st' \<le> pending e st"
  by (simp add: grapher_run_def basic_run_def)

lemma halts_A_step:
  assumes R: "\<And>k fl reqs idx st. k < m \<Longrightarrow> pending e st \<le> k \<Longrightarrow>
      \<exists>n. resolveRequirements n opts e fl reqs idx st \<noteq> Timeout"
    and p: "pending e st \<le> m"
  shows "\<exists>n. Dependencies_analyze n opts e fl st \<noteq> Timeout"
proof (cases "analyze_step e fl st")
  case (Stop c)
  with analyze_step_Stop[OF Stop] have "Dependencies_analyze (Suc 0) opts e fl st \<noteq> Timeout"
    by (auto simp: Dependencies_analyze_Suc)
  then show ?thesis by blast
next
  case (Scan f reqs st1)
  from analyze_step_Scan(6)[OF Scan] p have "pending e st1 < m" by simp
  from R[OF this le_refl] obtain n where "resolveRequirements n opts e f reqs 0 st1 \<noteq> Timeout"
    by blast
  with Scan have "Dependencies_analyze (Suc n) opts e fl st \<noteq> Timeout"
    by (simp add: Dependencies_analyze_Suc)
  then show ?thesis by blast
qed

lemma halts_R_step:
  assumes A: "\<And>fl st. pending e st \<le> m \<Longrightarrow> \<exists>n. Dependencies_analyze n opts e fl st \<noteq> Timeout"
  shows "pending e st \<le> m \<Longrightarrow> \<exists>n. resolveRequirements n opts e fl reqs idx st \<noteq> Timeout"
proof (induction "length reqs - idx" arbitrary: idx st rule: less_induct)
  case less
  show ?case
  proof (cases "requirement_step opts e fl reqs idx st")
    case (Finish c)
    with requirement_step_Finish[OF Finish]
    have "resolveRequirements (Suc 0) opts e fl reqs idx st \<noteq> Timeout"
      by (auto simp: resolveRequirements_Suc)
    then show ?thesis by blast
  next
    case (Continue st1)
    have b: "idx < length reqs" using requirement_step_bound[where d=0] Continue by blast
    have "grapher_run e st st1" using requirement_step_run[OF Continue] by blast
    then have p1: "pending e st1 \<le> m" using less.prems grapher_run_pending by fastforce
    have m: "length reqs - (idx + 1) < length reqs - idx" using b by arith
    from less.hyps[OF m p1]
    obtain n where "resolveRequirements n opts e fl reqs (idx + 1) st1 \<noteq> Timeout" by blast
    with Continue have "resolveRequirements (Suc n) opts e fl reqs idx st \<noteq> Timeout"
      by (simp add: resolveRequirements_Suc)
    then show ?thesis by blast
  next
    case (Descend d st1)
    have b: "idx < length reqs" using requirement_step_bound Descend by blast
    have "grapher_run e st st1" using requirement_step_run[OF Descend] by blast
    then have p1: "pending e st1 \<le> m" using less.prems grapher_run_pending by fastforce
    from A[OF p1] obtain n1 where n1: "Dependencies_analyze n1 opts e (Some d) st1 \<noteq> Timeout" by blast
    show ?thesis
    proof (cases "Dependencies_analyze n1 opts e (Some d) st1")
      case (Called u st2)
      then have "grapher_run e st1 st2" using grapher_lifting[of n1 opts e] by (cases u) blast
      then have p2: "pending e st2 \<le> m" using p1 grapher_run_pending by fastforce
      have m: "length reqs - (idx + 1) < length reqs - idx" using b by arith
      from less.hyps[OF m p2]
      obtain n2 where n2: "resolveRequirements n2 opts e fl reqs (idx + 1) st2 \<noteq> Timeout" by blast
      let ?N = "max n1 n2"
      have a: "Dependencies_analyze ?N opts e (Some d) st1 = Called u st2"
        using fuel_le_A[OF n1, of ?N] Called by simp
      have r: "resolveRequirements ?N opts e fl reqs (idx + 1) st2 \<noteq> Timeout"
        using fuel_le_R[OF n2, of ?N] n2 by simp
      from Descend a r have "resolveRequirements (Suc ?N) opts e fl reqs idx st \<noteq> Timeout"
        by (simp add: resolveRequirements_Suc)
      then show ?thesis by blast
    next
      case (Dropped x)
      with Descend have "resolveRequirements (Suc n1) opts e fl reqs idx st \<noteq> Timeout"
        by (simp add: resolveRequirements_Suc)
      then show ?thesis by blast
    next
      case (Thrown x)
      with Descend have "resolveRequirements (Suc n1) opts e fl reqs idx st \<noteq> Timeout"
        by (simp add: resolveRequirements_Suc)
      then show ?thesis by blast
    next
      case Timeout
      with n1 show ?thesis by simp
    qed
  qed
qed

lemma halts_both:
  "(\<forall>fl st. pending e st \<le> m \<longrightarrow> (\<exists>n. Dependencies_analyze n opts e fl st \<noteq> Timeout)) \<and>
   (\<forall>fl reqs idx st. pending e st \<le> m \<longrightarrow>
      (\<exists>n. resolveRequirements n opts e fl reqs idx st \<noteq> Timeout))"
proof (induction m rule: less_induct)
  case (less m)
  have A: "\<exists>n. Dependencies_analyze n opts e fl st \<noteq> Timeout" if "pending e st \<le> m" for fl st
  proof (rule halts_A_step[OF _ that])
    fix k fl' reqs idx st'
    assume "k < m" "pending e st' \<le> k"
    with less.IH[of k] show "\<exists>n. resolveRequirements n opts e fl' reqs idx st' \<noteq> Timeout" by blast
  qed
  have R: "\<exists>n. resolveRequirements n opts e fl reqs idx st \<noteq> Timeout"
    if "pending e st \<le> m" for fl reqs idx st
    by (rule halts_R_step[OF A that])
  show ?case using A R by blast
qed

lemma analyze_halts: "\<exists>n. Dependencies_analyze n opts e fl st \<noteq> Timeout"
  using halts_both[of e "pending e st" opts] by blast

lemma requirements_halt: "\<exists>n. resolveRequirements n opts e fl reqs idx st \<noteq> Timeout"
  using halts_both[of e "pending e st" opts] by blast

lemma grapher_run_wf: "grapher_run e st st' \<Longrightarrow> wf_cache st \<Longrightarrow> wf_cache st'"
  by (simp add: grapher_run_def basic_run_def)

lemma never_dropped:
  "(\<forall>fl reqs idx st st'. wf_cache st \<longrightarrow>
      resolveRequirements n opts e fl reqs idx st \<noteq> Dropped st') \<and>
   (\<forall>f st st'. wf_cache st \<longrightarrow> valid_file st f \<longrightarrow>
      Dependencies_analyze n opts e (Some f) st \<noteq> Dropped st')"
proof (induction n)
  case 0
  show ?case by simp
next
  case (Suc n)
  have R: "resolveRequirements (Suc n) opts e fl reqs idx st \<noteq> Dropped st'"
    if w: "wf_cache st" for fl reqs idx st st'
  proof (cases "requirement_step opts e fl reqs idx st")
    case (Finish c)
    with requirement_step_Finish[OF Finish] show ?thesis
      by (auto simp: resolveRequirements_Suc)
  next
    case (Continue st1)
    have "grapher_run e st st1" using requirement_step_run[OF Continue] by blast
    then have "wf_cache st1" using w by (rule grapher_run_wf)
    with Suc Continue show ?thesis by (simp add: resolveRequirements_Suc)
  next
    case (Descend d st1)
    from requirement_step_run[OF Descend] w
    have g: "grapher_run e st st1" and c: "cached_file st1 d" by blast+
    have w1: "wf_cache st1" using g w by (rule grapher_run_wf)
    have v: "valid_file st1 d" using c by (simp add: cached_file_def)
    show ?thesis
    proof (cases "Dependencies_analyze n opts e (Some d) st1")
      case (Called u st2)
      then have "grapher_run e st1 st2" using grapher_lifting[of n opts e] by (cases u) blast
      then have "wf_cache st2" using w1 by (rule grapher_run_wf)
      with Suc Descend Called show ?thesis by (simp add: resolveRequirements_Suc)
    next
      case (Dropped x)
      with Suc w1 v show ?thesis by blast
    qed (use Descend in \<open>simp_all add: resolveRequirements_Suc\<close>)
  qed
  have A: "Dependencies_analyze (Suc n) opts e (Some f) st \<noteq> Dropped st'"
    if w: "wf_cache st" and v: "valid_file st f" for f st st'
  proof (cases "analyze_step e (Some f) st")
    case (Stop c)
    show ?thesis
    proof
      assume "Dependencies_analyze (Suc n) opts e (Some f) st = Dropped st'"
      with Stop have "analyze_step e (Some f) st = Stop (Dropped st')"
        by (simp add: Dependencies_analyze_Suc)
      from analyze_step_Dropped[OF this] v show False by simp
    qed
  next
    case (Scan f' reqs st1)
    have "wf_cache st1" using analyze_step_Scan(5)[OF Scan] w by (rule grapher_run_wf)
    with Suc Scan show ?thesis by (simp add: Dependencies_analyze_Suc)
  qed
  show ?case using R A by blast
qed

subsection \<open>The outcomes of \<open>analyze\<close> and of the facade\<close>

lemma analyze_assigned:
  "valid_file st f \<Longrightarrow> dependencies (heap st ! f) \<noteq> None \<Longrightarrow>
   Dependencies_analyze (Suc m) opts e (Some f) st = Called () st"
  by (simp add: Dependencies_analyze_Suc analyze_step_def)

lemma analyze_invalid:
  "\<not> valid_file st f \<Longrightarrow> Dependencies_analyze (Suc m) opts e (Some f) st = Dropped st"
  by (simp add: Dependencies_analyze_Suc analyze_step_def)

lemma analyze_not_vinyl: "Dependencies_analyze (Suc m) opts e None st = Dropped st"
  by (simp add: Dependencies_analyze_Suc analyze_step_def)

lemma analyze_settles:
  "\<exists>n. \<forall>k\<ge>n. Dependencies_analyze k opts e fl st = Dependencies_analyze n opts e fl st \<and>
      Dependencies_analyze n opts e fl st \<noteq> Timeout"
proof -
  from analyze_halts obtain n where n: "Dependencies_analyze n opts e fl st \<noteq> Timeout" by blast
  then have "\<forall>k\<ge>n. Dependencies_analyze k opts e fl st = Dependencies_analyze n opts e fl st \<and>
      Dependencies_analyze n opts e fl st \<noteq> Timeout"
    using fuel_le_A by blast
  then show ?thesis by blast
qed

lemma facade_thrown:
  "resolve opts e fileName None st = Inl err \<Longrightarrow>
   Cartographer_analyze n opts e fileName st = Thrown err"
  by (simp add: Cartographer_analyze_def)

lemma facade_unresolved:
  "resolve opts e fileName None st = Inr ((err, fl), st1) \<Longrightarrow> err \<noteq> None \<or> fl = None \<Longrightarrow>
   \<exists>msg. Cartographer_analyze n opts e fileName st = Called (Some msg, None) st1"
  by (simp add: Cartographer_analyze_def)

lemma facade_resolved:
  "resolve opts e fileName None st = Inr ((None, Some f), st1) \<Longrightarrow>
   Cartographer_analyze n opts e fileName st =
     (case Dependencies_analyze n opts e (Some f) st1 of
        Called u st' \<Rightarrow> Called (None, Some f) st'
      | Dropped st' \<Rightarrow> Dropped st'
      | Thrown x \<Rightarrow> Thrown x
      | Timeout \<Rightarrow> Timeout)"
  by (simp add: Cartographer_analyze_def)

lemma facade_cases:
  obtains (thrown) err where "resolve opts e fileName None st = Inl err"
  | (unresolved) err fl st1 where "resolve opts e fileName None st = Inr ((err, fl), st1)"
      "err \<noteq> None \<or> fl = None"
  | (resolved) f st1 where "resolve opts e fileName None st = Inr ((None, Some f), st1)"
proof (cases "resolve opts e fileName None st")
  case (Inl err)
  then show ?thesis by (rule thrown)
next
  case (Inr r)
  obtain err fl st1 where r: "r = ((err, fl), st1)" by (cases r) auto
  show ?thesis
  proof (cases "err \<noteq> None \<or> fl = None")
    case True
    with Inr r unresolved show ?thesis by blast
  next
    case False
    then obtain f where "err = None" "fl = Some f" by auto
    with Inr r resolved show ?thesis by blast
  qed
qed

lemma facade_settles:
  "\<exists>n. \<forall>k\<ge>n. Cartographer_analyze k opts e fileName st = Cartographer_analyze n opts e fileName st \<and>
      Cartographer_analyze n opts e fileName st \<noteq> Timeout"
proof (cases rule: facade_cases[where opts=opts and e=e and fileName=fileName and st=st])
  case (thrown err)
  have "Cartographer_analyze k opts e fileName st = Cartographer_analyze 0 opts e fileName st \<and>
      Cartographer_analyze 0 opts e fileName st \<noteq> Timeout" for k
    by (simp only: facade_thrown[OF thrown] completion.distinct simp_thms)
  then show ?thesis by blast
next
  case (unresolved err fl st1)
  from facade_unresolved[OF unresolved] obtain msg where
    m: "Cartographer_analyze 0 opts e fileName st = Called (Some msg, None) st1" by blast
  have "Cartographer_analyze k opts e fileName st = Cartographer_analyze 0 opts e fileName st" for k
    using unresolved by (cases err; cases fl) (simp_all add: Cartographer_analyze_def)
  with m have "Cartographer_analyze k opts e fileName st = Cartographer_analyze 0 opts e fileName st \<and>
      Cartographer_analyze 0 opts e fileName st \<noteq> Timeout" for k
    by simp
  then show ?thesis by blast
next
  case (resolved f st1)
  from analyze_settles[of opts e "Some f" st1] obtain n where
    n: "\<forall>k\<ge>n. Dependencies_analyze k opts e (Some f) st1 = Dependencies_analyze n opts e (Some f) st1 \<and>
        Dependencies_analyze n opts e (Some f) st1 \<noteq> Timeout" by blast
  from n[rule_format, OF le_refl] have nt: "Dependencies_analyze n opts e (Some f) st1 \<noteq> Timeout"
    by (rule conjunct2)
  have t: "Cartographer_analyze n opts e fileName st \<noteq> Timeout"
    using nt by (cases "Dependencies_analyze n opts e (Some f) st1")
      (simp_all add: facade_resolved[OF resolved])
  have "Cartographer_analyze k opts e fileName st = Cartographer_analyze n opts e fileName st"
    if "k \<ge> n" for k
  proof -
    from n[rule_format, OF that] have "Dependencies_analyze k opts e (Some f) st1 =
        Dependencies_analyze n opts e (Some f) st1" by (rule conjunct1)
    then show ?thesis by (simp only: facade_resolved[OF resolved])
  qed
  with t have "\<forall>k\<ge>n. Cartographer_analyze k opts e fileName st = Cartographer_analyze n opts e fileName st \<and>
      Cartographer_analyze n opts e fileName st \<noteq> Timeout" by blast
  then show ?thesis by (rule exI)
qed

lemma analyze_run:
  "Dependencies_analyze n opts e fl st = Called () st' \<Longrightarrow> grapher_run e st st'"
  using grapher_lifting[of n opts e] by blast

lemma analyze_assigns:
  "Dependencies_analyze n opts e fl st = Called () st' \<Longrightarrow>
   \<exists>f. fl = Some f \<and> valid_file st' f \<and> dependencies (heap st' ! f) \<noteq> None"
  using grapher_lifting[of n opts e] by blast


lemma grapher_run_dynamic: "grapher_run e st st' \<Longrightarrow> dynamic_ok st \<Longrightarrow> dynamic_ok st'"
  by (simp add: grapher_run_def basic_run_def)


lemma analyze_valid_outcome:
  assumes "wf_cache st" "valid_file st f"
  shows "(\<exists>st'. Dependencies_analyze n opts e (Some f) st = Called () st' \<and>
            dependencies (heap st' ! f) \<noteq> None) \<or>
         (\<exists>err. Dependencies_analyze n opts e (Some f) st = Thrown err) \<or>
         Dependencies_analyze n opts e (Some f) st = Timeout"
proof (cases "Dependencies_analyze n opts e (Some f) st")
  case (Called u st')
  then have c: "Dependencies_analyze n opts e (Some f) st = Called () st'" by simp
  from analyze_assigns[OF c] have "dependencies (heap st' ! f) \<noteq> None" by simp
  with c show ?thesis by simp
next
  case (Dropped st')
  from never_dropped[of n opts e] assms have
    "Dependencies_analyze n opts e (Some f) st \<noteq> Dropped st'" by blast
  with Dropped show ?thesis by simp
next
  case (Thrown err)
  then show ?thesis by simp
next
  case Timeout
  then show ?thesis by simp
qed

lemma facade_outcome:
  assumes "wf_cache st"
  shows "(\<exists>out st'. Cartographer_analyze n opts e fileName st = Called out st') \<or>
         (\<exists>err. Cartographer_analyze n opts e fileName st = Thrown err) \<or>
         Cartographer_analyze n opts e fileName st = Timeout"
proof (cases rule: facade_cases[where opts=opts and e=e and fileName=fileName and st=st])
  case (thrown err)
  then show ?thesis by (simp add: facade_thrown)
next
  case (unresolved err fl st1)
  from facade_unresolved[OF unresolved, of n] show ?thesis by auto
next
  case (resolved f st1)
  from resolved have g: "grapher_run e st st1" by (rule resolve_grapher_run(1))
  then have w: "wf_cache st1" using assms by (rule grapher_run_wf)
  from resolve_grapher_run(2)[OF resolved assms, of f] have "cached_file st1 f" by simp
  then have v: "valid_file st1 f" by (simp add: cached_file_def)
  from analyze_valid_outcome[OF w v, of n opts e]
  consider (c) st' where "Dependencies_analyze n opts e (Some f) st1 = Called () st'"
    | (t) err where "Dependencies_analyze n opts e (Some f) st1 = Thrown err"
    | (o) "Dependencies_analyze n opts e (Some f) st1 = Timeout" by blast
  then show ?thesis
    by cases (simp_all add: facade_resolved[OF resolved])
qed



section \<open>Idempotence of the grapher (C9)\<close>

text \<open>
  Claim C9. When the dependency list of a file record (a file object with contents,
  \<open>valid_file\<close>) has already been assigned, \<open>analyze\<close>
  invokes the callback at once and leaves the whole state as it is: the file is not
  scanned again and nothing is read. So when an \<open>analyze\<close> of a root has completed, a
  second \<open>analyze\<close> of the same root completes in the state the first one left: every
  dependency list keeps its length and the order of its elements, and every file object
  keeps its address.
\<close>

theorem analyze_idempotent:
  "(valid_file st f \<and> dependencies (heap st ! f) \<noteq> None \<longrightarrow>
      Dependencies_analyze (Suc m) opts e (Some f) st = Called () st) \<and>
   (Dependencies_analyze n opts e root st = Called () st' \<longrightarrow>
      Dependencies_analyze (Suc m) opts e root st' = Called () st')"
proof -
  have "Dependencies_analyze (Suc m) opts e root st' = Called () st'"
    if "Dependencies_analyze n opts e root st = Called () st'"
    using analyze_assigns[OF that] analyze_assigned by blast
  then show ?thesis using analyze_assigned by blast
qed

theorem analyze_idempotent_witness:
  "valid_file cycle_entered 0 \<and> dependencies (heap cycle_entered ! 0) = Some [] \<and>
   Dependencies_analyze 1 default_options cycle_env (Some 0) cycle_entered =
     Called () cycle_entered \<and>
   Dependencies_analyze 5 default_options cycle_env (Some 0) cycle_root = Called () cycle_graph \<and>
   Dependencies_analyze 1 default_options cycle_env (Some 0) cycle_graph = Called () cycle_graph"
proof -
  have v: "valid_file cycle_entered 0 \<and> dependencies (heap cycle_entered ! 0) = Some []"
    by (simp add: valid_file_def cycle_entered_def)
  have a: "Dependencies_analyze 5 default_options cycle_env (Some 0) cycle_root =
      Called () cycle_graph" by code_simp
  from v analyze_idempotent [where st = cycle_entered and f = 0 and m = 0 and opts = default_options
      and e = cycle_env]
  have b: "Dependencies_analyze 1 default_options cycle_env (Some 0) cycle_entered =
     Called () cycle_entered" by simp
  from a analyze_idempotent [where st = cycle_root and m = 0 and opts = default_options
      and e = cycle_env and n = 5 and root = "Some 0" and st' = cycle_graph]
  have c: "Dependencies_analyze 1 default_options cycle_env (Some 0) cycle_graph =
      Called () cycle_graph" by simp
  from v a b c show ?thesis by blast
qed

section \<open>The terminal event of an analysis (C10)\<close>

text \<open>
  Claim C10: \<open>analyze\<close> produces exactly one terminal event, its callback being invoked
  exactly once, with the root and its dependency tree or with a fatal error, and never
  zero times. The code does not do so; what it does is this. \<open>analyze\<close> of a file object
  with contents, in a state whose file cache is well formed (\<open>wf_cache\<close>), ends in one
  of two ways, whatever the fuel beyond some bound: the callback is invoked, once and
  without an error, and the dependency list of the file is then assigned; or an
  exception is raised and the callback is not invoked. \<open>analyze\<close> of a value that is
  not a file object, or of a file object without contents, returns without invoking the
  callback. The facade, which hands to \<open>analyze\<close> only files the resolver has loaded,
  invokes its callback once or raises.
\<close>

theorem analyze_terminal_event:
  "(wf_cache st \<and> valid_file st f \<longrightarrow>
      (\<exists>n. \<forall>k\<ge>n.
         (\<exists>st'. Dependencies_analyze k opts e (Some f) st = Called () st' \<and>
                dependencies (heap st' ! f) \<noteq> None) \<or>
         (\<exists>err. Dependencies_analyze k opts e (Some f) st = Thrown err))) \<and>
   (\<not> valid_file st f \<longrightarrow> Dependencies_analyze (Suc m) opts e (Some f) st = Dropped st) \<and>
   Dependencies_analyze (Suc m) opts e None st = Dropped st \<and>
   (wf_cache st \<longrightarrow>
      (\<exists>n. \<forall>k\<ge>n.
         (\<exists>out st'. Cartographer_analyze k opts e fileName st = Called out st') \<or>
         (\<exists>err. Cartographer_analyze k opts e fileName st = Thrown err)))"
proof -
  have a: "\<exists>n. \<forall>k\<ge>n.
         (\<exists>st'. Dependencies_analyze k opts e (Some f) st = Called () st' \<and>
                dependencies (heap st' ! f) \<noteq> None) \<or>
         (\<exists>err. Dependencies_analyze k opts e (Some f) st = Thrown err)"
    if w: "wf_cache st" and v: "valid_file st f"
  proof -
    from analyze_settles[of opts e "Some f" st] obtain n where
      n: "\<forall>k\<ge>n. Dependencies_analyze k opts e (Some f) st =
            Dependencies_analyze n opts e (Some f) st \<and>
          Dependencies_analyze n opts e (Some f) st \<noteq> Timeout" by blast
    have "(\<exists>st'. Dependencies_analyze k opts e (Some f) st = Called () st' \<and>
                dependencies (heap st' ! f) \<noteq> None) \<or>
         (\<exists>err. Dependencies_analyze k opts e (Some f) st = Thrown err)" if "k \<ge> n" for k
    proof -
      from n that have "Dependencies_analyze k opts e (Some f) st \<noteq> Timeout" by metis
      with analyze_valid_outcome[OF w v, of k opts e] show ?thesis by blast
    qed
    then show ?thesis by blast
  qed
  have b: "\<exists>n. \<forall>k\<ge>n.
         (\<exists>out st'. Cartographer_analyze k opts e fileName st = Called out st') \<or>
         (\<exists>err. Cartographer_analyze k opts e fileName st = Thrown err)"
    if w: "wf_cache st"
  proof -
    from facade_settles[of opts e fileName st] obtain n where
      n: "\<forall>k\<ge>n. Cartographer_analyze k opts e fileName st =
            Cartographer_analyze n opts e fileName st \<and>
          Cartographer_analyze n opts e fileName st \<noteq> Timeout" by blast
    have "(\<exists>out st'. Cartographer_analyze k opts e fileName st = Called out st') \<or>
         (\<exists>err. Cartographer_analyze k opts e fileName st = Thrown err)" if "k \<ge> n" for k
    proof -
      from n that have "Cartographer_analyze k opts e fileName st \<noteq> Timeout" by metis
      with facade_outcome[OF w, of k opts e fileName] show ?thesis by blast
    qed
    then show ?thesis by blast
  qed
  from a b analyze_invalid analyze_not_vinyl show ?thesis by blast
qed

theorem analyze_terminal_event_witness:
  "wf_cache cycle_root \<and> valid_file cycle_root 0 \<and> wf_cache empty_state \<and>
   (\<exists>n. \<forall>k\<ge>n.
      (\<exists>st'. Dependencies_analyze k default_options cycle_env (Some 0) cycle_root =
                Called () st' \<and> dependencies (heap st' ! 0) \<noteq> None) \<or>
      (\<exists>err. Dependencies_analyze k default_options cycle_env (Some 0) cycle_root =
                Thrown err)) \<and>
   (\<exists>n. \<forall>k\<ge>n.
      (\<exists>out st'. Cartographer_analyze k default_options cycle_env ''./x'' empty_state =
                Called out st') \<or>
      (\<exists>err. Cartographer_analyze k default_options cycle_env ''./x'' empty_state =
                Thrown err)) \<and>
   Dependencies_analyze 5 default_options cycle_env (Some 0) cycle_root = Called () cycle_graph \<and>
   Cartographer_analyze 6 default_options cycle_env ''./x'' empty_state =
     Called (None, Some 0) cycle_graph"
proof -
  have w: "wf_cache cycle_root \<and> valid_file cycle_root 0"
    by (simp add: wf_cache_def cycle_root_def valid_file_def)
  have w': "wf_cache empty_state" by (simp add: wf_cache_def empty_state_def)
  have a: "Dependencies_analyze 5 default_options cycle_env (Some 0) cycle_root =
      Called () cycle_graph" by code_simp
  have b: "Cartographer_analyze 6 default_options cycle_env ''./x'' empty_state =
     Called (None, Some 0) cycle_graph" by code_simp
  from w analyze_terminal_event [where st = cycle_root and f = 0 and opts = default_options and e = cycle_env]
  have c: "\<exists>n. \<forall>k\<ge>n.
      (\<exists>st'. Dependencies_analyze k default_options cycle_env (Some 0) cycle_root =
                Called () st' \<and> dependencies (heap st' ! 0) \<noteq> None) \<or>
      (\<exists>err. Dependencies_analyze k default_options cycle_env (Some 0) cycle_root =
                Thrown err)" by blast
  from w' analyze_terminal_event [where st = empty_state and opts = default_options and e = cycle_env
      and fileName = "''./x''"]
  have d: "\<exists>n. \<forall>k\<ge>n.
      (\<exists>out st'. Cartographer_analyze k default_options cycle_env ''./x'' empty_state =
                Called out st') \<or>
      (\<exists>err. Cartographer_analyze k default_options cycle_env ''./x'' empty_state =
                Thrown err)" by blast
  from w w' a b c d show ?thesis by blast
qed

text \<open>
  Inputs for which the callback is invoked zero times, whatever the fuel: a value that is
  not a file object and a file object without contents, at which \<open>analyze\<close> returns at
  once; and, through the facade, a file the parser rejects, where the \<open>SyntaxError\<close> is
  raised instead of being handed to the callback.
\<close>

theorem analyze_never_invokes_callback:
  "(\<forall>n. Dependencies_analyze (Suc n) default_options (sample_env [] [] []) None empty_state =
        Dropped empty_state) \<and>
   (\<forall>n. Dependencies_analyze (Suc n) default_options (sample_env [] [] []) (Some 0) null_state =
        Dropped null_state) \<and>
   (\<forall>n. Cartographer_analyze (Suc n) default_options broken_env ''./b'' empty_state =
        Thrown SyntaxError)"
proof -
  have r: "resolve default_options broken_env ''./b'' None empty_state =
      Inr ((None, Some 0), broken_root)" by code_simp
  have p: "Required_analyze (parse broken_env) (Some (heap broken_root ! 0)) = Inl SyntaxError"
    by code_simp
  have v: "valid_file broken_root 0 \<and> dependencies (heap broken_root ! 0) = None"
    by (simp add: valid_file_def broken_root_def)
  have "Dependencies_analyze (Suc n) default_options broken_env (Some 0) broken_root =
      Thrown SyntaxError" for n
    using p v by (simp add: Dependencies_analyze_Suc analyze_step_def)
  then have "Cartographer_analyze (Suc n) default_options broken_env ''./b'' empty_state =
        Thrown SyntaxError" for n
    by (simp add: facade_resolved[OF r])
  then show ?thesis
    by (simp add: Dependencies_analyze_Suc analyze_step_def valid_file_def null_state_def)
qed

section \<open>Dynamic requirements (C5)\<close>

text \<open>
  Claim C5, as amended. For a requirement that is not static, \<open>resolveRequirements\<close>
  appends to the dependency list of the file the record with the fields of the
  requirement, no file and the error \<open>Unable to resolve dynamic dependency\<close>, and
  goes on with the next requirement. So an \<open>analyze\<close> that completes keeps the property
  that every dependency record \<open>d\<close> of every file object with \<open>static d\<close> false has no
  file and has exactly that error.
\<close>

theorem dynamic_dependency_record:
  "(idx < length reqs \<and> fl < length (heap st) \<and> dependencies (heap st ! fl) = Some ds \<and>
    \<not> static (reqs ! idx) \<longrightarrow>
      resolveRequirements (Suc n) opts e fl reqs idx st =
        resolveRequirements n opts e fl reqs (idx + 1)
          (st\<lparr>heap := (heap st)[fl := (heap st ! fl)\<lparr>dependencies :=
             Some (ds @ [\<lparr>references = references (reqs ! idx), path = path (reqs ! idx),
                          static = False, dep_file = None,
                          error = Some ''Unable to resolve dynamic dependency''\<rparr>])\<rparr>]\<rparr>)) \<and>
   (dynamic_ok st \<and> Dependencies_analyze n opts e root st = Called () st' \<longrightarrow> dynamic_ok st')"
proof -
  have "dynamic_ok st'" if "dynamic_ok st" "Dependencies_analyze n opts e root st = Called () st'"
    using analyze_run[OF that(2)] that(1) by (rule grapher_run_dynamic)
  then show ?thesis
    by (auto simp: resolveRequirements_Suc requirement_step_def pushed_step_def
        push_dependency_def dependency_of_def)
qed

theorem dynamic_dependency_record_witness:
  "dynamic_ok dynamic_root \<and>
   Dependencies_analyze 3 default_options dynamic_env (Some 0) dynamic_root =
     Called () dynamic_graph \<and>
   dynamic_ok dynamic_graph \<and>
   resolveRequirements (Suc 1) default_options dynamic_env 0 [dynamic_requirement] 0
     dynamic_entered = Called () dynamic_graph"
proof -
  have r: "dynamic_ok dynamic_root" by (simp add: dynamic_ok_def dynamic_root_def)
  have a: "Dependencies_analyze 3 default_options dynamic_env (Some 0) dynamic_root =
     Called () dynamic_graph" by code_simp
  have h: "0 < length [dynamic_requirement] \<and> 0 < length (heap dynamic_entered) \<and>
    dependencies (heap dynamic_entered ! 0) = Some [] \<and> \<not> static ([dynamic_requirement] ! 0)"
    by (simp add: dynamic_entered_def dynamic_requirement_def)
  from r a dynamic_dependency_record [where st = dynamic_root and n = 3 and opts = default_options
      and e = dynamic_env and root = "Some 0" and st' = dynamic_graph]
  have g: "dynamic_ok dynamic_graph" by blast
  note s = dynamic_dependency_record [where idx = 0 and reqs = "[dynamic_requirement]" and fl = 0
      and st = dynamic_entered and ds = "[]" and n = 1 and opts = default_options
      and e = dynamic_env, THEN conjunct1, THEN mp, OF h]
  have t: "resolveRequirements (Suc 1) default_options dynamic_env 0 [dynamic_requirement] 0
     dynamic_entered = Called () dynamic_graph"
    unfolding s by code_simp
  from r a g t show ?thesis by blast
qed

text \<open>
  The error of the claim as stated, \<open>unresolvable dynamic import\<close>, is not the one the
  grapher records.
\<close>

theorem dynamic_dependency_error_message:
  "Dependencies_analyze 3 default_options dynamic_env (Some 0) dynamic_root =
     Called () dynamic_graph \<and>
   map (\<lambda>d. (static d, dep_file d, error d)) (the (dependencies (heap dynamic_graph ! 0))) =
     [(False, None, Some ''Unable to resolve dynamic dependency'')] \<and>
   ''Unable to resolve dynamic dependency'' \<noteq> ''unresolvable dynamic import''"
  by code_simp

section \<open>Termination on cycles (C1)\<close>



section \<open>Properties of the scanner\<close>

lemma handle_all_append:
  "handle_all h (xs @ ys) st =
     (case handle_all h xs st of Inl e \<Rightarrow> Inl e | Inr st' \<Rightarrow> handle_all h ys st')"
  by (induction xs arbitrary: st) (auto split: sum.splits)

lemma walk_collect:
  "walk [k \<mapsto> h] q st = Inr st' \<Longrightarrow>
   \<exists>ns. (\<forall>acc. walk [k \<mapsto> (\<lambda>n acc. Inr (acc @ [n]))] q acc = Inr (acc @ ns)) \<and>
        handle_all h ns st = Inr st'"
proof (induction "[k \<mapsto> h]" q st arbitrary: st' rule: walk.induct)
  case (1 st)
  then show ?case by (auto intro: exI[of _ "[]"])
next
  case (2 nodes st)
  then show ?case by simp
next
  case (3 xs nodes st)
  then show ?case by simp
next
  case (4 n nodes st)
  show ?case
  proof (cases "ntype n = k")
    case False
    with 4(2) obtain items where i: "enqueue n = Inr items"
      and w: "walk [k \<mapsto> h] (nodes @ items) st = Inr st'"
      by (auto split: sum.splits)
    from False have d: "([k \<mapsto> h]) (ntype n) = None" by simp
    from 4(1)[of st items st'] d i w obtain ns where
      "\<forall>acc. walk [k \<mapsto> (\<lambda>n acc. Inr (acc @ [n]))] (nodes @ items) acc = Inr (acc @ ns)"
      "handle_all h ns st = Inr st'" by auto
    with False i show ?thesis by auto
  next
    case True
    with 4(2) obtain st1 items where h: "h n st = Inr st1" and i: "enqueue n = Inr items"
      and w: "walk [k \<mapsto> h] (nodes @ items) st1 = Inr st'"
      by (auto split: sum.splits)
    from True h have d: "(case ([k \<mapsto> h]) (ntype n) of None \<Rightarrow> Inr st | Some handler \<Rightarrow> handler n st) = Inr st1"
      by simp
    from 4(1)[OF d i w] obtain ns where
      a: "\<forall>acc. walk [k \<mapsto> (\<lambda>n acc. Inr (acc @ [n]))] (nodes @ items) acc = Inr (acc @ ns)"
      and b: "handle_all h ns st1 = Inr st'" by auto
    have "\<forall>acc. walk [k \<mapsto> (\<lambda>n acc. Inr (acc @ [n]))] (Single (Some n) # nodes) acc =
        Inr (acc @ (n # ns))"
      using True i a by simp
    moreover have "handle_all h (n # ns) st = Inr st'" using h b by simp
    ultimately show ?thesis by blast
  qed
qed

lemma first_sightings_snoc:
  "first_sightings (xs @ [x]) =
     (if x \<in> set (first_sightings xs) then first_sightings xs else first_sightings xs @ [x])"
  by (simp add: first_sightings_def)

lemma first_sightings_Nil [simp]: "first_sightings [] = []"
  by (simp add: first_sightings_def)

lemma set_first_sightings [simp]: "set (first_sightings xs) = set xs"
  by (induction xs rule: rev_induct) (auto simp: first_sightings_snoc)

lemma distinct_first_sightings [simp]: "distinct (first_sightings xs)"
  by (induction xs rule: rev_induct) (auto simp: first_sightings_snoc)

lemma require_sites_Nil [simp]: "require_sites src [] = []"
  by (simp add: require_sites_def List.map_filter_simps)

lemma require_sites_snoc:
  "require_sites src (ns @ [n]) =
     (case require_argument n of
        None \<Rightarrow> require_sites src ns
      | Some first \<Rightarrow> require_sites src ns @ [(stored_path src first, reference_of src n)])"
  by (simp add: require_sites_def List.map_filter_def split: option.splits)

lemma trackRequirement_cases:
  assumes "trackRequirement src required node = Inr required'"
  shows "case require_argument node of
           None \<Rightarrow> required' = required
         | Some first \<Rightarrow>
             (case map_of required (stored_path src first) of
                None \<Rightarrow>
                  required' = required @
                    [(stored_path src first,
                      \<lparr>references = [reference_of src node], path = stored_path src first,
                       static = (ntype first = ''Literal'')\<rparr>)]
              | Some r \<Rightarrow>
                  required' = AList.update (stored_path src first)
                    (r\<lparr>references := references r @ [reference_of src node]\<rparr>) required)"
proof (cases "require_argument node")
  case None
  with assms show ?thesis
    by (auto simp: trackRequirement_def require_argument_def Let_def
        split: slot.splits option.splits if_splits list.splits)
next
  case (Some first)
  then obtain callee where c: "fld node ''callee'' = Single (Some callee)"
    "ntype callee = ''Identifier''" "map_of (prims callee) ''name'' = Some (PStr ''require'')"
    "fld node ''arguments'' = Multi [Some first]"
    by (auto simp: require_argument_def split: slot.splits option.splits if_splits list.splits)
  show ?thesis
  proof (cases "map_of required (stored_path src first)")
    case None
    with assms Some c show ?thesis
      by (auto simp: trackRequirement_def stored_path_def reference_of_def Let_def
          update_fresh update_snoc_fresh split: if_splits)
  next
    case (Some r)
    with assms \<open>require_argument node = Some first\<close> c show ?thesis
      by (auto simp: trackRequirement_def stored_path_def reference_of_def Let_def)
  qed
qed

lemma update_entries:
  "distinct (map fst al) \<Longrightarrow> (q, s) \<in> set (AList.update p v al) \<Longrightarrow>
   (q = p \<and> s = v) \<or> (q \<noteq> p \<and> (q, s) \<in> set al)"
  by (induction al) (auto split: if_splits simp: rev_image_eqI)

lemma update_keys_present:
  "map_of al p = Some r \<Longrightarrow> map fst (AList.update p v al) = map fst al"
  by (induction al) (auto split: if_splits)

lemma folded_step:
  assumes f: "folded required (require_sites src ns)"
    and t: "trackRequirement src required n = Inr required'"
  shows "folded required' (require_sites src (ns @ [n]))"
proof (cases "require_argument n")
  case None
  with trackRequirement_cases[OF t] f show ?thesis by (simp add: require_sites_snoc)
next
  case (Some first)
  let ?p = "stored_path src first"
  let ?sites = "require_sites src ns"
  have keys: "map fst required = first_sightings (map fst ?sites)" using f by (simp add: folded_def)
  have ent: "\<And>p r. (p, r) \<in> set required \<Longrightarrow>
      path r = p \<and> references r = map snd (filter (\<lambda>s. fst s = p) ?sites)"
    using f by (simp add: folded_def)
  have s: "require_sites src (ns @ [n]) = ?sites @ [(?p, reference_of src n)]"
    using Some by (simp add: require_sites_snoc)
  show ?thesis
  proof (cases "map_of required ?p")
    case None
    with trackRequirement_cases[OF t] Some have r': "required' = required @
        [(?p, \<lparr>references = [reference_of src n], path = ?p, static = (ntype first = ''Literal'')\<rparr>)]"
      by simp
    from None have "?p \<notin> set (map fst required)" by (simp add: map_of_eq_None_iff)
    then have fresh: "?p \<notin> set (map fst ?sites)" using keys by simp
    then have nof: "filter (\<lambda>s. fst s = ?p) ?sites = []"
      by (force simp: filter_empty_conv)
    have k: "map fst required' = first_sightings (map fst (require_sites src (ns @ [n])))"
      using keys fresh by (simp add: r' s first_sightings_snoc)
    have e: "path r = p \<and> references r = map snd (filter (\<lambda>s. fst s = p) (require_sites src (ns @ [n])))"
      if "(p, r) \<in> set required'" for p r
    proof (cases "(p, r) \<in> set required")
      case True
      then have "p \<in> set (map fst required)" by force
      then have "p \<noteq> ?p" using \<open>?p \<notin> set (map fst required)\<close> by blast
      with ent[OF True] show ?thesis by (simp add: s)
    next
      case False
      with that have "p = ?p" "r = \<lparr>references = [reference_of src n], path = ?p,
          static = (ntype first = ''Literal'')\<rparr>" by (auto simp: r')
      then show ?thesis using nof by (simp add: s)
    qed
    from k e show ?thesis unfolding folded_def by blast
  next
    case (Some r0)
    with trackRequirement_cases[OF t] \<open>require_argument n = Some first\<close>
    have r': "required' = AList.update ?p (r0\<lparr>references := references r0 @ [reference_of src n]\<rparr>) required"
      by simp
    from Some have in0: "(?p, r0) \<in> set required" by (rule map_of_SomeD)
    then have "?p \<in> set (map fst required)" by force
    then have seen: "?p \<in> set (map fst ?sites)" using keys by simp
    have d: "distinct (map fst required)" using keys by simp
    have k: "map fst required' = first_sightings (map fst (require_sites src (ns @ [n])))"
      using keys seen Some by (simp add: r' s first_sightings_snoc update_keys_present)
    have e: "path r = p \<and> references r = map snd (filter (\<lambda>s. fst s = p) (require_sites src (ns @ [n])))"
      if "(p, r) \<in> set required'" for p r
    proof -
      from update_entries[OF d that[unfolded r']]
      consider (new) "p = ?p" "r = r0\<lparr>references := references r0 @ [reference_of src n]\<rparr>"
        | (old) "p \<noteq> ?p" "(p, r) \<in> set required" by blast
      then show ?thesis
      proof cases
        case new
        with ent[OF in0] show ?thesis by (simp add: s)
      next
        case old
        with ent[OF old(2)] show ?thesis by (simp add: s)
      qed
    qed
    from k e show ?thesis unfolding folded_def by blast
  qed
qed

lemma folded_handle_all:
  "handle_all (\<lambda>n required. trackRequirement src required n) ns required = Inr required' \<Longrightarrow>
   folded required (require_sites src ms) \<Longrightarrow> folded required' (require_sites src (ms @ ns))"
proof (induction ns arbitrary: required ms)
  case Nil
  then show ?case by simp
next
  case (Cons n ns)
  from Cons.prems(1) obtain r1 where t: "trackRequirement src required n = Inr r1"
    and h: "handle_all (\<lambda>n required. trackRequirement src required n) ns r1 = Inr required'"
    by (auto split: sum.splits)
  from folded_step[OF Cons.prems(2) t] have "folded r1 (require_sites src (ms @ [n]))" .
  from Cons.IH[OF h this] show ?case by simp
qed

lemma map_insort_key:
  "map g (insort_key (\<lambda>x. f (g x)) x ys) = insort_key f (g x) (map g ys)"
  by (induction ys) auto

lemma map_sort_key_comp: "map g (sort_key (\<lambda>x. f (g x)) xs) = sort_key f (map g xs)"
  by (induction xs) (auto simp: map_insort_key)

lemma set_for_in [simp]: "set (for_in obj) = set obj"
  by (auto simp: for_in_def)

lemma map_fst_for_in:
  "map fst (for_in obj) =
     sort_key decimal (filter is_array_index (map fst obj)) @
     filter (\<lambda>k. \<not> is_array_index k) (map fst obj)"
  by (simp add: for_in_def map_sort_key_comp filter_map comp_def)

lemma distinct_for_in_keys:
  "distinct ks \<Longrightarrow>
   distinct (sort_key decimal (filter is_array_index ks) @ filter (\<lambda>k. \<not> is_array_index k) ks)"
  by auto

lemma analyze_folded:
  assumes "Required_analyze parser (Some f) = Inr (Some ds)"
  shows "\<exists>src ast ns required. contents f = Some src \<and> parser src = Inr ast \<and>
     visited_calls ast = Inr ns \<and> folded required (require_sites src ns) \<and>
     ds = map snd (for_in required)"
proof -
  from assms obtain src ast required where c: "contents f = Some src" and p: "parser src = Inr ast"
    and w: "walk [''CallExpression'' \<mapsto> (\<lambda>n required. trackRequirement src required n)]
              [Single (Some ast)] [] = Inr required"
    and d: "ds = map snd (for_in required)"
    by (auto simp: Required_analyze_def split: option.splits sum.splits)
  from walk_collect[OF w] obtain ns where
    v: "\<forall>acc. walk [''CallExpression'' \<mapsto> (\<lambda>n acc. Inr (acc @ [n]))] [Single (Some ast)] acc =
          Inr (acc @ ns)"
    and h: "handle_all (\<lambda>n required. trackRequirement src required n) ns [] = Inr required"
    by blast
  from v[rule_format, of "[]"] have vc: "visited_calls ast = Inr ns" by (simp add: visited_calls_def)
  have "folded [] (require_sites src [])" by (simp add: folded_def)
  from folded_handle_all[OF h this] have "folded required (require_sites src ns)" by simp
  with c p vc d show ?thesis by blast
qed

lemma folded_descriptors:
  assumes "folded required sites"
  shows "map path (map snd (for_in required)) =
           sort_key decimal (filter is_array_index (first_sightings (map fst sites))) @
           filter (\<lambda>p. \<not> is_array_index p) (first_sightings (map fst sites))"
    and "\<forall>d \<in> set (map snd (for_in required)).
           references d = map snd (filter (\<lambda>s. fst s = path d) sites)"
proof -
  have ent: "\<And>p r. (p, r) \<in> set required \<Longrightarrow>
      path r = p \<and> references r = map snd (filter (\<lambda>s. fst s = p) sites)"
    using assms by (simp add: folded_def)
  have "map path (map snd (for_in required)) = map fst (for_in required)"
    using ent by (auto simp: comp_def)
  then show "map path (map snd (for_in required)) =
           sort_key decimal (filter is_array_index (first_sightings (map fst sites))) @
           filter (\<lambda>p. \<not> is_array_index p) (first_sightings (map fst sites))"
    using assms by (simp add: map_fst_for_in folded_def)
  show "\<forall>d \<in> set (map snd (for_in required)).
           references d = map snd (filter (\<lambda>s. fst s = path d) sites)"
    using ent by auto
qed

section \<open>Folding and order of the descriptors (C7)\<close>

text \<open>
  Claim C7, as amended. \<open>Required.analyze\<close> either raises (the parser rejects the
  file, or \<open>trackRequirement\<close> raises, as it does on a stored path that names a property
  inherited from \<open>Object.prototype\<close>) or returns. When it returns the descriptors \<open>ds\<close> of a
  file, let \<open>ns\<close> be the call expressions the walker has visited, in the order of the
  walk, and take the require sites among them, each with its stored path. The paths of
  the descriptors are distinct; they are the stored paths of the sites, each once, and
  they come in the order of \<open>for (var path in required)\<close>: first the paths that are array
  indices (canonical decimal numerals), in ascending numeric order, then all other paths
  in the order of their first sighting. The references of a descriptor are the
  references of the sites with its stored path, one for each, in the order of the walk.
\<close>

theorem descriptors_folded_by_path:
  assumes "Required_analyze parser (Some f) = Inr (Some ds)"
  shows "\<exists>src ast ns. contents f = Some src \<and> parser src = Inr ast \<and>
     visited_calls ast = Inr ns \<and>
     distinct (map path ds) \<and>
     map path ds =
       sort_key decimal
         (filter is_array_index (first_sightings (map fst (require_sites src ns)))) @
       filter (\<lambda>p. \<not> is_array_index p) (first_sightings (map fst (require_sites src ns))) \<and>
     (\<forall>d \<in> set ds. references d =
        map snd (filter (\<lambda>s. fst s = path d) (require_sites src ns)))"
proof -
  from analyze_folded[OF assms] obtain src ast ns required where
    a: "contents f = Some src" "parser src = Inr ast" "visited_calls ast = Inr ns"
    and fo: "folded required (require_sites src ns)" and d: "ds = map snd (for_in required)"
    by blast
  note p = folded_descriptors[OF fo, folded d]
  have "distinct (map path ds)"
    unfolding p(1) by (rule distinct_for_in_keys) simp
  with a p show ?thesis by blast
qed

theorem descriptors_folded_by_path_witness:
  "Required_analyze (\<lambda>src. Inr numbered_tree)
     (Some \<lparr>vpath = ''/a/main.js'', contents = Some numbered_source\<rparr>) =
     Inr (Some numbered_descriptors) \<and>
   (\<exists>src ast ns.
      contents \<lparr>vpath = ''/a/main.js'', contents = Some numbered_source\<rparr> = Some src \<and>
      (Inr numbered_tree :: error + node) = Inr ast \<and>
      visited_calls ast = Inr ns \<and>
      distinct (map path numbered_descriptors) \<and>
      map path numbered_descriptors =
        sort_key decimal
          (filter is_array_index (first_sightings (map fst (require_sites src ns)))) @
        filter (\<lambda>p. \<not> is_array_index p) (first_sightings (map fst (require_sites src ns))) \<and>
      (\<forall>d \<in> set numbered_descriptors. references d =
         map snd (filter (\<lambda>s. fst s = path d) (require_sites src ns))))"
proof -
  have a: "Required_analyze (\<lambda>src. Inr numbered_tree)
     (Some \<lparr>vpath = ''/a/main.js'', contents = Some numbered_source\<rparr>) =
     Inr (Some numbered_descriptors)" by code_simp
  from descriptors_folded_by_path [OF a] a show ?thesis by blast
qed

text \<open>
  The claim as stated fails on \<^verbatim>\<open>require('2'); require('1'); require('2')\<close>: the path
  \<open>2\<close> is sighted first, and the descriptor of \<open>1\<close> comes first in the output.
\<close>

theorem descriptors_not_in_order_of_first_sighting:
  "Required_analyze (\<lambda>src. Inr numbered_tree)
     (Some \<lparr>vpath = ''/a/main.js'', contents = Some numbered_source\<rparr>) =
     Inr (Some numbered_descriptors) \<and>
   map path numbered_descriptors = [''1'', ''2''] \<and>
   visited_calls numbered_tree =
     Inr [mk_call_expression (mk_identifier ''require'' (0, 7))
            [mk_literal (PStr ''2'') (8, 11)] (0, 12),
          mk_call_expression (mk_identifier ''require'' (14, 21))
            [mk_literal (PStr ''1'') (22, 25)] (14, 26),
          mk_call_expression (mk_identifier ''require'' (28, 35))
            [mk_literal (PStr ''2'') (36, 39)] (28, 40)] \<and>
   first_sightings [''2'', ''1'', ''2''] = [''2'', ''1'']"
  by code_simp


end
